theory Spec2Isabelle
  imports Main "HOL-Library.Sublist" "HOL-Library.AList"
begin

section \<open>The filesystem the library runs on\<close>

text \<open>
  The two operations of the library, \<open>createDiff\<close> and \<open>restoreDiff\<close>, only talk to the
  filesystem through the primitives of \<open>fs-extra\<close> and \<open>path\<close>. The filesystem is a finite
  table from absolute physical paths (lists of components, the root being \<open>[]\<close>) to nodes.
  A regular file holds either uninterpreted bytes or a JSON document, of which only the
  \<open>removed\<close> member is kept (\<open>None\<close>: the member is absent).
\<close>

type_synonym path = "string list"

datatype content = Bytes string | Json "string list option"

datatype node = File content | Link string | Dir

type_synonym fs = "(path \<times> node) list"

datatype errno = ENOENT | EEXIST | ENOTDIR | EISDIR | ELOOP | EINVAL | ECOPY | EJSON

definition lookup :: "fs \<Rightarrow> path \<Rightarrow> node option" where
  "lookup fs p = (if p = [] then Some Dir else map_of fs p)"

definition store :: "path \<Rightarrow> node \<Rightarrow> fs \<Rightarrow> fs" where
  "store p n fs = AList.update p n fs"

definition prune :: "path \<Rightarrow> fs \<Rightarrow> fs" where
  "prune p fs = filter (\<lambda>(k, _). \<not> prefix p k) fs"

subsection \<open>Path strings\<close>

fun split_path :: "string \<Rightarrow> string list" where
  "split_path [] = [] # []"
| "split_path (c # cs) =
     (if c = CHR ''/'' then [] # split_path cs
      else (case split_path cs of [] \<Rightarrow> [c] # [] | w # ws \<Rightarrow> (c # w) # ws))"

definition comps :: "string \<Rightarrow> string list" where
  "comps s = filter (\<lambda>c. c \<noteq> [] \<and> c \<noteq> ''.'') (split_path s)"

definition is_absolute :: "string \<Rightarrow> bool" where
  "is_absolute s = (case s of [] \<Rightarrow> False | c # _ \<Rightarrow> c = CHR ''/'')"

text \<open>The stack discipline of \<open>path.normalize\<close>: \<open>..\<close> pops a component, and at the
  top of an absolute path it is dropped, at the top of a relative one it is kept.\<close>

fun normalize_comps :: "bool \<Rightarrow> string list \<Rightarrow> string list \<Rightarrow> string list" where
  "normalize_comps ab acc [] = rev acc"
| "normalize_comps ab acc (c # cs) =
     (if c = [] \<or> c = ''.'' then normalize_comps ab acc cs
      else if c = ''..'' then
        (case acc of
           [] \<Rightarrow> if ab then normalize_comps ab [] cs else normalize_comps ab [c] cs
         | a # as \<Rightarrow> if a = ''..'' then normalize_comps ab (c # acc) cs
                     else normalize_comps ab as cs)
      else normalize_comps ab (c # acc) cs)"

fun intercalate :: "string list \<Rightarrow> string" where
  "intercalate [] = []"
| "intercalate [c] = c"
| "intercalate (c # cs) = c @ ''/'' @ intercalate cs"

definition posix_normalize :: "string \<Rightarrow> string" where
  "posix_normalize s =
     (let ab = is_absolute s;
          body = intercalate (normalize_comps ab [] (split_path s));
          trailing = (s \<noteq> [] \<and> last s = CHR ''/'')
      in if body = [] then (if ab then ''/'' else if trailing then ''./'' else ''.'')
         else (if ab then ''/'' else []) @ body @ (if trailing then ''/'' else []))"

text \<open>\<open>path.join(a, b)\<close> on two strings: empty arguments are skipped, the rest is
  joined with a slash and normalised.\<close>

definition posix_join :: "string \<Rightarrow> string \<Rightarrow> string" where
  "posix_join a b =
     (if a = [] \<and> b = [] then ''.''
      else if a = [] then posix_normalize b
      else if b = [] then posix_normalize a
      else posix_normalize (a @ ''/'' @ b))"

text \<open>\<open>path.join(folder, rel)\<close> where \<open>folder\<close> is an absolute path, held as its
  components. \<open>path.join\<close> keeps a trailing slash of \<open>rel\<close>, and a path with a trailing
  slash names its entry as a directory: the slash is kept as a last component \<open>.\<close>,
  which path resolution treats as the kernel treats the slash.\<close>

definition trailing_slash :: "string \<Rightarrow> bool" where
  "trailing_slash s = (s \<noteq> [] \<and> last s = CHR ''/'')"

definition path_join :: "path \<Rightarrow> string \<Rightarrow> path" where
  "path_join folder rel =
     (let cs = normalize_comps True [] (folder @ split_path rel)
      in if trailing_slash rel \<and> cs \<noteq> [] then cs @ [''.''] else cs)"

text \<open>\<open>path.dirname\<close> ignores a trailing slash.\<close>

definition dirname :: "path \<Rightarrow> path" where
  "dirname p = butlast (if p \<noteq> [] \<and> last p = ''.'' then butlast p else p)"

fun common_prefix :: "path \<Rightarrow> path \<Rightarrow> path" where
  "common_prefix (x # xs) (y # ys) = (if x = y then x # common_prefix xs ys else [])"
| "common_prefix _ _ = []"

text \<open>\<open>path.relative(from, to)\<close> on absolute paths, as a string.\<close>

definition path_relative :: "path \<Rightarrow> path \<Rightarrow> string" where
  "path_relative from to =
     (let c = length (common_prefix from to)
      in intercalate (replicate (length from - c) ''..'' @ drop c to))"

subsection \<open>Path resolution\<close>

text \<open>
  \<open>resolve n fs follow cur cs\<close> walks the components \<open>cs\<close> from the physical directory
  \<open>cur\<close>, following symbolic links in every component but the last, and in the last one
  when \<open>follow\<close> is set. A component \<open>.\<close> stays in the directory reached, so that an
  entry before it has to be a directory, or a link to one. It returns the physical path of the entry, which exists or is a
  missing entry of an existing directory. \<open>n\<close> is the number of links that may still be
  followed (the kernel gives up with \<open>ELOOP\<close> after 40).
\<close>

fun resolve :: "nat \<Rightarrow> fs \<Rightarrow> bool \<Rightarrow> path \<Rightarrow> string list \<Rightarrow> errno + path" where
  "resolve n fs follow cur [] = Inr cur"
| "resolve n fs follow cur (c # cs) =
     (if c = ''.'' then resolve n fs follow cur cs
      else if c = ''..'' then resolve n fs follow (butlast cur) cs
      else (case lookup fs (cur @ [c]) of
          None \<Rightarrow> if cs = [] then Inr (cur @ [c]) else Inl ENOENT
        | Some Dir \<Rightarrow> resolve n fs follow (cur @ [c]) cs
        | Some (File _) \<Rightarrow> if cs = [] then Inr (cur @ [c]) else Inl ENOTDIR
        | Some (Link t) \<Rightarrow>
            if cs = [] \<and> \<not> follow then Inr (cur @ [c])
            else (case n of
                0 \<Rightarrow> Inl ELOOP
              | Suc m \<Rightarrow>
                  if t = [] then Inl ENOENT
                  else resolve m fs follow (if is_absolute t then [] else cur) (comps t @ cs))))"

definition max_links :: nat where
  "max_links = 40"

definition fs_lstat :: "fs \<Rightarrow> path \<Rightarrow> errno + node" where
  "fs_lstat fs p =
     (case resolve max_links fs False [] p of
        Inl e \<Rightarrow> Inl e
      | Inr q \<Rightarrow> (case lookup fs q of None \<Rightarrow> Inl ENOENT | Some n \<Rightarrow> Inr n))"

definition fs_stat :: "fs \<Rightarrow> path \<Rightarrow> errno + node" where
  "fs_stat fs p =
     (case resolve max_links fs True [] p of
        Inl e \<Rightarrow> Inl e
      | Inr q \<Rightarrow> (case lookup fs q of None \<Rightarrow> Inl ENOENT | Some n \<Rightarrow> Inr n))"

subsection \<open>The primitives of \<open>fs\<close> and \<open>fs-extra\<close>\<close>

text \<open>\<open>fs.pathExists\<close> is \<open>fs.access\<close> turned into a boolean: it follows symbolic
  links, so a link whose target is missing does not exist for it.\<close>

definition fs_pathExists :: "fs \<Rightarrow> path \<Rightarrow> bool" where
  "fs_pathExists fs p = (case fs_stat fs p of Inl _ \<Rightarrow> False | Inr _ \<Rightarrow> True)"

definition fs_readlink :: "fs \<Rightarrow> path \<Rightarrow> errno + string" where
  "fs_readlink fs p =
     (case fs_lstat fs p of
        Inl e \<Rightarrow> Inl e
      | Inr (Link t) \<Rightarrow> Inr t
      | Inr _ \<Rightarrow> Inl EINVAL)"

text \<open>\<open>fs.symlink(target, p)\<close> never replaces an entry: any entry at \<open>p\<close>, a link
  included, is \<open>EEXIST\<close>.\<close>

definition fs_symlink :: "string \<Rightarrow> path \<Rightarrow> fs \<Rightarrow> errno + fs" where
  "fs_symlink t p fs =
     (case resolve max_links fs False [] p of
        Inl e \<Rightarrow> Inl e
      | Inr q \<Rightarrow> (case lookup fs q of
                    None \<Rightarrow> Inr (store q (Link t) fs)
                  | Some _ \<Rightarrow> Inl EEXIST))"

definition fs_mkdir :: "path \<Rightarrow> fs \<Rightarrow> errno + fs" where
  "fs_mkdir p fs =
     (case resolve max_links fs False [] p of
        Inl e \<Rightarrow> Inl e
      | Inr q \<Rightarrow> (case lookup fs q of
                    None \<Rightarrow> Inr (store q Dir fs)
                  | Some _ \<Rightarrow> Inl EEXIST))"

text \<open>\<open>fs.remove\<close> is \<open>rm -rf\<close>: the entry itself (a link is not followed) with
  everything below it; a missing entry is no error.\<close>

definition fs_remove :: "path \<Rightarrow> fs \<Rightarrow> errno + fs" where
  "fs_remove p fs =
     (case resolve max_links fs False [] p of
        Inl e \<Rightarrow> (if e = ENOENT then Inr fs else Inl e)
      | Inr q \<Rightarrow> Inr (prune q fs))"

definition fs_unlink :: "path \<Rightarrow> fs \<Rightarrow> errno + fs" where
  "fs_unlink p fs =
     (case resolve max_links fs False [] p of
        Inl e \<Rightarrow> Inl e
      | Inr q \<Rightarrow> (case lookup fs q of
                    None \<Rightarrow> Inl ENOENT
                  | Some Dir \<Rightarrow> Inl EISDIR
                  | Some _ \<Rightarrow> Inr (prune q fs)))"

text \<open>\<open>fs.ensureDir\<close> is \<open>mkdir -p\<close>: every missing component is created; a component
  that exists must be a directory, or a link to one. On a dangling link \<open>mkdir\<close> answers
  \<open>EEXIST\<close>, the library then asks \<open>stat\<close> and throws what that answers, \<open>ENOENT\<close>.\<close>

fun mkdirs :: "path \<Rightarrow> string list \<Rightarrow> fs \<Rightarrow> errno + fs" where
  "mkdirs pre [] fs = Inr fs"
| "mkdirs pre (c # cs) fs =
     (case fs_stat fs (pre @ [c]) of
        Inr Dir \<Rightarrow> mkdirs (pre @ [c]) cs fs
      | Inr _ \<Rightarrow> Inl (if cs = [] then EEXIST else ENOTDIR)
      | Inl e \<Rightarrow>
          if e = ENOENT then
            (case fs_mkdir (pre @ [c]) fs of
               Inl e' \<Rightarrow> Inl (if e' = EEXIST then ENOENT else e')
             | Inr fs' \<Rightarrow> mkdirs (pre @ [c]) cs fs')
          else Inl e)"

definition fs_ensureDir :: "path \<Rightarrow> fs \<Rightarrow> errno + fs" where
  "fs_ensureDir p fs = mkdirs [] p fs"

text \<open>\<open>fs.readdir\<close> lists a directory in the order the filesystem keeps, which the
  library does not fix; here it is the order of the table.\<close>

definition children :: "fs \<Rightarrow> path \<Rightarrow> string list" where
  "children fs q = map (\<lambda>(k, _). last k) (filter (\<lambda>(k, _). k \<noteq> [] \<and> butlast k = q) fs)"

definition fs_readdir :: "fs \<Rightarrow> path \<Rightarrow> errno + string list" where
  "fs_readdir fs p =
     (case resolve max_links fs True [] p of
        Inl e \<Rightarrow> Inl e
      | Inr q \<Rightarrow> (case lookup fs q of
                    None \<Rightarrow> Inl ENOENT
                  | Some Dir \<Rightarrow> Inr (children fs q)
                  | Some _ \<Rightarrow> Inl ENOTDIR))"

text \<open>Writing a regular file opens the destination without \<open>O_NOFOLLOW\<close> and with
  \<open>O_CREAT\<close>: a link at the destination is followed, and a missing pointee is created.\<close>

definition fs_write :: "path \<Rightarrow> content \<Rightarrow> fs \<Rightarrow> errno + fs" where
  "fs_write p c fs =
     (case resolve max_links fs True [] p of
        Inl e \<Rightarrow> Inl e
      | Inr q \<Rightarrow> (case lookup fs q of
                    None \<Rightarrow> Inr (store q (File c) fs)
                  | Some (File _) \<Rightarrow> Inr (store q (File c) fs)
                  | Some Dir \<Rightarrow> Inl EISDIR
                  | Some (Link _) \<Rightarrow> Inl ELOOP))"

definition fs_copyFile :: "path \<Rightarrow> path \<Rightarrow> fs \<Rightarrow> errno + fs" where
  "fs_copyFile src dest fs =
     (case fs_stat fs src of
        Inl e \<Rightarrow> Inl e
      | Inr (File c) \<Rightarrow> fs_write dest c fs
      | Inr _ \<Rightarrow> Inl EISDIR)"

definition fs_writeJson :: "path \<Rightarrow> string list \<Rightarrow> fs \<Rightarrow> errno + fs" where
  "fs_writeJson p removed fs = fs_write p (Json (Some removed)) fs"

text \<open>\<open>fs.readJson\<close>: the file is read through links and parsed; bytes that are no JSON
  document are a parse error.\<close>

definition fs_readJson :: "fs \<Rightarrow> path \<Rightarrow> errno + string list option" where
  "fs_readJson fs p =
     (case fs_stat fs p of
        Inl e \<Rightarrow> Inl e
      | Inr (File (Json r)) \<Rightarrow> Inr r
      | Inr (File (Bytes _)) \<Rightarrow> Inl EJSON
      | Inr _ \<Rightarrow> Inl EISDIR)"

subsection \<open>\<open>fs.copy\<close> of \<open>fs-extra\<close>, with \<open>dereference: false\<close>\<close>

text \<open>
  \<open>fs.copy\<close> looks at source and destination without following links, refuses to put a
  directory over a non-directory or the reverse (\<open>ECOPY\<close> stands for the errors the
  library raises itself), creates the destination's parent, and copies by kind: a
  directory is created and its entries copied in turn, a file replaces what is at the
  destination, a link is created again with the same target string. The entries below a
  directory are taken as they are when the copy starts, parents before children.
\<close>

definition lstat_opt :: "fs \<Rightarrow> path \<Rightarrow> errno + node option" where
  "lstat_opt fs p =
     (case fs_lstat fs p of
        Inl e \<Rightarrow> (if e = ENOENT then Inr None else Inl e)
      | Inr n \<Rightarrow> Inr (Some n))"

definition copy_item :: "node \<Rightarrow> path \<Rightarrow> fs \<Rightarrow> errno + fs" where
  "copy_item n dest fs =
     (case lstat_opt fs dest of
        Inl e \<Rightarrow> Inl e
      | Inr destStat \<Rightarrow>
          (case n of
             Dir \<Rightarrow>
               (case destStat of
                  None \<Rightarrow> fs_mkdir dest fs
                | Some Dir \<Rightarrow> Inr fs
                | Some _ \<Rightarrow> Inl ECOPY)
           | File c \<Rightarrow>
               (case destStat of
                  None \<Rightarrow> fs_write dest c fs
                | Some Dir \<Rightarrow> Inl ECOPY
                | Some _ \<Rightarrow>
                    (case fs_unlink dest fs of
                       Inl e \<Rightarrow> Inl e
                     | Inr fs' \<Rightarrow> fs_write dest c fs'))
           | Link t \<Rightarrow>
               (case destStat of
                  None \<Rightarrow> fs_symlink t dest fs
                | Some Dir \<Rightarrow> Inl ECOPY
                | Some (File _) \<Rightarrow> Inl EEXIST
                | Some (Link t') \<Rightarrow>
                    if prefix (normalize_comps True [] (split_path t))
                              (normalize_comps True [] (split_path t'))
                    then Inl ECOPY
                    else (case fs_unlink dest fs of
                            Inl e \<Rightarrow> Inl e
                          | Inr fs' \<Rightarrow> fs_symlink t dest fs'))))"

fun copy_items :: "(path \<times> node) list \<Rightarrow> nat \<Rightarrow> path \<Rightarrow> fs \<Rightarrow> errno + fs" where
  "copy_items [] k dest fs = Inr fs"
| "copy_items ((p, n) # xs) k dest fs =
     (case copy_item n (dest @ drop k p) fs of
        Inl e \<Rightarrow> Inl e
      | Inr fs' \<Rightarrow> copy_items xs k dest fs')"

definition descendants :: "fs \<Rightarrow> path \<Rightarrow> (path \<times> node) list" where
  "descendants fs q = sort_key (\<lambda>(k, _). length k) (filter (\<lambda>(k, _). strict_prefix q k) fs)"

definition fs_copy :: "path \<Rightarrow> path \<Rightarrow> fs \<Rightarrow> errno + fs" where
  "fs_copy src dest fs =
     (case resolve max_links fs False [] src of
        Inl e \<Rightarrow> Inl e
      | Inr qs \<Rightarrow>
          (case lookup fs qs of
             None \<Rightarrow> Inl ENOENT
           | Some n \<Rightarrow>
               (case lstat_opt fs dest of
                  Inl e \<Rightarrow> Inl e
                | Inr destStat \<Rightarrow>
                    if destStat \<noteq> None \<and> resolve max_links fs False [] dest = Inr qs
                    then Inl ECOPY
                    else if n = Dir \<and> prefix src dest then Inl ECOPY
                    else if (case resolve max_links fs True [] (dirname dest) of
                               Inl _ \<Rightarrow> False | Inr qd \<Rightarrow> prefix qs qd)
                    then Inl ECOPY
                    else
                      (case (if fs_pathExists fs (dirname dest) then Inr fs
                             else fs_ensureDir (dirname dest) fs) of
                         Inl e \<Rightarrow> Inl e
                       | Inr fs1 \<Rightarrow>
                           (case copy_item n dest fs1 of
                              Inl e \<Rightarrow> Inl e
                            | Inr fs2 \<Rightarrow>
                                if n = Dir
                                then copy_items (descendants fs qs) (length qs) dest fs2
                                else Inr fs2)))))"

section \<open>Running against the filesystem\<close>

text \<open>
  A run threads the filesystem and a trace of the primitive calls made so far, each with
  its outcome. An exception is the value \<open>Inl\<close>; the filesystem of a failed run is what
  the calls before the failure left behind.
\<close>

datatype op =
    OpRemove path
  | OpEnsureDir path
  | OpLstat path
  | OpReadlink path
  | OpSymlink string path
  | OpCopy path path
  | OpCopyFile path path
  | OpWriteJson path
  | OpReadJson path
  | OpReaddir path
  | OpPathExists path

datatype outcome = Done | Failed errno

type_synonym event = "op \<times> outcome"

record world =
  files :: fs
  trace :: "event list"

datatype diff_state = Equal | Left | Right | Distinct

datatype diff_type = Missing | FileT | DirectoryT | BrokenLink

text \<open>An entry of the comparator's \<open>diffSet\<close>, with the members \<open>createDiff\<close> reads.\<close>

record entry =
  state :: diff_state
  name1 :: "string option"
  name2 :: "string option"
  relativePath :: "string option"
  type1 :: diff_type
  type2 :: diff_type

datatype error =
    IOError op errno
  | ComparisonError string
  | EmptyResult
  | InvalidEntry entry
  | InvalidPath
  | OutOfFuel

type_synonym 'a io = "world \<Rightarrow> (error + 'a) \<times> world"

definition io_return :: "'a \<Rightarrow> 'a io" where
  "io_return x w = (Inr x, w)"

definition io_throw :: "error \<Rightarrow> 'a io" where
  "io_throw e w = (Inl e, w)"

definition io_bind :: "'a io \<Rightarrow> ('a \<Rightarrow> 'b io) \<Rightarrow> 'b io" where
  "io_bind m f w = (case m w of (Inl e, w') \<Rightarrow> (Inl e, w') | (Inr x, w') \<Rightarrow> f x w')"

definition io_then :: "unit io \<Rightarrow> 'b io \<Rightarrow> 'b io" where
  "io_then m k = io_bind m (\<lambda>_. k)"

definition log_event :: "op \<Rightarrow> outcome \<Rightarrow> world \<Rightarrow> world" where
  "log_event a r w = w\<lparr>trace := trace w @ [(a, r)]\<rparr>"

text \<open>A call that changes the filesystem, and a call that reads it.\<close>

definition run :: "op \<Rightarrow> (fs \<Rightarrow> errno + fs) \<Rightarrow> unit io" where
  "run a f w =
     (case f (files w) of
        Inl e \<Rightarrow> (Inl (IOError a e), log_event a (Failed e) w)
      | Inr fs' \<Rightarrow> (Inr (), log_event a Done (w\<lparr>files := fs'\<rparr>)))"

definition query :: "op \<Rightarrow> (fs \<Rightarrow> errno + 'a) \<Rightarrow> 'a io" where
  "query a f w =
     (case f (files w) of
        Inl e \<Rightarrow> (Inl (IOError a e), log_event a (Failed e) w)
      | Inr x \<Rightarrow> (Inr x, log_event a Done w))"

definition pathExists :: "path \<Rightarrow> bool io" where
  "pathExists p w = (Inr (fs_pathExists (files w) p), log_event (OpPathExists p) Done w)"

definition ensureDir :: "path \<Rightarrow> unit io" where
  "ensureDir p = run (OpEnsureDir p) (fs_ensureDir p)"

definition remove :: "path \<Rightarrow> unit io" where
  "remove p = run (OpRemove p) (fs_remove p)"

definition symlink :: "string \<Rightarrow> path \<Rightarrow> unit io" where
  "symlink t p = run (OpSymlink t p) (fs_symlink t p)"

definition readlink :: "path \<Rightarrow> string io" where
  "readlink p = query (OpReadlink p) (\<lambda>fs. fs_readlink fs p)"

definition lstat :: "path \<Rightarrow> node io" where
  "lstat p = query (OpLstat p) (\<lambda>fs. fs_lstat fs p)"

definition copy :: "path \<Rightarrow> path \<Rightarrow> unit io" where
  "copy src dest = run (OpCopy src dest) (fs_copy src dest)"

definition copyFile :: "path \<Rightarrow> path \<Rightarrow> unit io" where
  "copyFile src dest = run (OpCopyFile src dest) (fs_copyFile src dest)"

definition writeJson :: "path \<Rightarrow> string list \<Rightarrow> unit io" where
  "writeJson p removed = run (OpWriteJson p) (fs_writeJson p removed)"

definition readJson :: "path \<Rightarrow> string list option io" where
  "readJson p = query (OpReadJson p) (\<lambda>fs. fs_readJson fs p)"

definition readdir :: "path \<Rightarrow> string list io" where
  "readdir p = query (OpReaddir p) (\<lambda>fs. fs_readdir fs p)"

definition manifest_name :: string where
  "manifest_name = ''__folder-diff-metadata.json''"

section \<open>\<open>createDiff\<close>\<close>

text \<open>
  The comparator is the external library \<open>dir-compare\<close>: it is a parameter, a function
  of the filesystem and the two folders that either fails with a message or returns a
  result whose \<open>diffSet\<close> may be missing.
\<close>

datatype compare_result = CompareFails string | CompareOk "entry list option"

type_synonym comparator = "fs \<Rightarrow> path \<Rightarrow> path \<Rightarrow> compare_result"

definition compareDirectories :: "comparator \<Rightarrow> path \<Rightarrow> path \<Rightarrow> entry list option io" where
  "compareDirectories compare path1 path2 w =
     (case compare (files w) path1 path2 of
        CompareFails m \<Rightarrow> (Inl (ComparisonError m), w)
      | CompareOk res \<Rightarrow> (Inr res, w))"

text \<open>JavaScript truthiness of an optional string, and \<open>a || b\<close>.\<close>

definition truthy :: "string option \<Rightarrow> bool" where
  "truthy s = (case s of None \<Rightarrow> False | Some v \<Rightarrow> v \<noteq> [])"

definition js_or :: "string option \<Rightarrow> string option \<Rightarrow> string option" where
  "js_or a b = (if truthy a then a else b)"

text \<open>\<open>isSymlink\<close> catches the failure of \<open>lstat\<close>, reports it on the console and
  answers \<open>false\<close>.\<close>

definition isSymlink :: "path \<Rightarrow> bool io" where
  "isSymlink filePath w =
     (case lstat filePath w of
        (Inl _, w') \<Rightarrow> (Inr False, w')
      | (Inr stats, w') \<Rightarrow> (Inr (case stats of Link _ \<Rightarrow> True | _ \<Rightarrow> False), w'))"

text \<open>The body shared, word for word, by the cases \<open>right\<close> and \<open>distinct\<close>.\<close>

definition materialize :: "path \<Rightarrow> path \<Rightarrow> diff_type \<Rightarrow> unit io" where
  "materialize sourcePathB targetPath ty2 =
     io_then (ensureDir (dirname targetPath))
       (io_bind (isSymlink sourcePathB) (\<lambda>link.
          if link then
            io_bind (readlink sourcePathB) (\<lambda>symlinkTarget. symlink symlinkTarget targetPath)
          else if ty2 = DirectoryT then copy sourcePathB targetPath
          else if ty2 = FileT then copy sourcePathB targetPath
          else io_return ()))"

definition invalid_entry :: "entry \<Rightarrow> bool" where
  "invalid_entry e = (\<not> truthy (relativePath e) \<or> \<not> truthy (js_or (name1 e) (name2 e)))"

definition relativeFilePath :: "entry \<Rightarrow> string" where
  "relativeFilePath e =
     (case (if truthy (relativePath e)
            then (case (relativePath e, js_or (name1 e) (name2 e)) of
                    (Some r, Some n) \<Rightarrow> Some (posix_join r n)
                  | _ \<Rightarrow> None)
            else js_or (name1 e) (name2 e)) of
        None \<Rightarrow> []
      | Some v \<Rightarrow> v)"

definition process_entry :: "path \<Rightarrow> path \<Rightarrow> entry \<Rightarrow> string list \<Rightarrow> string list io" where
  "process_entry folderB diffFolder e removedItems =
     (if invalid_entry e then io_throw (InvalidEntry e)
      else if relativeFilePath e = [] then io_throw InvalidPath
      else
        (let sourcePathB = path_join folderB (relativeFilePath e);
             targetPath = path_join diffFolder (relativeFilePath e)
         in case state e of
              Left \<Rightarrow> io_return (removedItems @ [relativeFilePath e])
            | Right \<Rightarrow>
                io_then (materialize sourcePathB targetPath (type2 e)) (io_return removedItems)
            | Distinct \<Rightarrow>
                io_then (materialize sourcePathB targetPath (type2 e)) (io_return removedItems)
            | Equal \<Rightarrow> io_return removedItems))"

fun process_entries :: "path \<Rightarrow> path \<Rightarrow> entry list \<Rightarrow> string list \<Rightarrow> string list io" where
  "process_entries folderB diffFolder [] removedItems w = (Inr removedItems, w)"
| "process_entries folderB diffFolder (e # es) removedItems w =
     (case process_entry folderB diffFolder e removedItems w of
        (Inl err, w') \<Rightarrow> (Inl err, w')
      | (Inr removedItems', w') \<Rightarrow> process_entries folderB diffFolder es removedItems' w')"

definition createDiff :: "comparator \<Rightarrow> path \<Rightarrow> path \<Rightarrow> path \<Rightarrow> unit io" where
  "createDiff compare folderA folderB diffFolder =
     io_then (remove diffFolder)
       (io_then (ensureDir diffFolder)
          (io_bind (compareDirectories compare folderA folderB) (\<lambda>diffSet.
             case diffSet of
               None \<Rightarrow> io_throw EmptyResult
             | Some ds \<Rightarrow>
                 io_bind (process_entries folderB diffFolder ds []) (\<lambda>removedItems.
                   if length removedItems > 0
                   then writeJson (path_join diffFolder manifest_name) removedItems
                   else io_return ()))))"

section \<open>\<open>restoreDiff\<close>\<close>

definition load_removed :: "path \<Rightarrow> string list io" where
  "load_removed metadataPath =
     io_bind (pathExists metadataPath) (\<lambda>ex.
       if ex then
         io_bind (readJson metadataPath) (\<lambda>removed.
           io_return (case removed of None \<Rightarrow> [] | Some xs \<Rightarrow> xs))
       else io_return [])"

definition remove_item :: "path \<Rightarrow> string \<Rightarrow> unit io" where
  "remove_item targetFolder itemPath =
     (let targetPath = path_join targetFolder itemPath
      in io_bind (pathExists targetPath) (\<lambda>ex.
           if ex then remove targetPath else io_return ()))"

fun handle_removals :: "path \<Rightarrow> string list \<Rightarrow> unit io" where
  "handle_removals targetFolder [] w = (Inr (), w)"
| "handle_removals targetFolder (itemPath # rest) w =
     (case remove_item targetFolder itemPath w of
        (Inl err, w') \<Rightarrow> (Inl err, w')
      | (Inr _, w') \<Rightarrow> handle_removals targetFolder rest w')"

text \<open>The closure \<open>filter\<close> of the source. It is defined there and passed to nothing.\<close>

definition filter_src :: "path \<Rightarrow> path \<Rightarrow> bool" where
  "filter_src diffFolder src = (path_relative diffFolder src \<noteq> manifest_name)"

definition restore_symlink :: "path \<Rightarrow> path \<Rightarrow> unit io" where
  "restore_symlink srcPath destPath =
     io_bind (readlink srcPath) (\<lambda>symlinkTarget.
       io_then (ensureDir (dirname destPath))
         (io_bind (pathExists destPath) (\<lambda>ex.
            io_then (if ex then remove destPath else io_return ())
              (symlink symlinkTarget destPath))))"

definition restore_file :: "path \<Rightarrow> path \<Rightarrow> unit io" where
  "restore_file srcPath destPath =
     io_then (ensureDir (dirname destPath)) (copyFile srcPath destPath)"

text \<open>
  \<open>walk\<close> reads each directory of the diff folder when it reaches it, so it is recursion
  on the filesystem as the run has changed it, and need not end (a target folder inside
  the diff folder feeds it for ever). The first argument bounds the depth; a run that
  reaches the bound is \<open>OutOfFuel\<close>.
\<close>

fun walk :: "nat \<Rightarrow> path \<Rightarrow> path \<Rightarrow> path \<Rightarrow> unit io"
  and walk_items :: "nat \<Rightarrow> path \<Rightarrow> path \<Rightarrow> path \<Rightarrow> string list \<Rightarrow> unit io" where
  "walk 0 targetFolder diffFolder currentPath w = (Inl OutOfFuel, w)"
| "walk (Suc n) targetFolder diffFolder currentPath w =
     (case readdir currentPath w of
        (Inl err, w') \<Rightarrow> (Inl err, w')
      | (Inr items, w') \<Rightarrow> walk_items n targetFolder diffFolder currentPath items w')"
| "walk_items n targetFolder diffFolder currentPath [] w = (Inr (), w)"
| "walk_items n targetFolder diffFolder currentPath (item # items) w =
     (let srcPath = path_join currentPath item;
          destPath = path_join targetFolder (path_relative diffFolder srcPath)
      in case lstat srcPath w of
           (Inl err, w1) \<Rightarrow> (Inl err, w1)
         | (Inr stats, w1) \<Rightarrow>
             (case (case stats of
                      Link _ \<Rightarrow> restore_symlink srcPath destPath w1
                    | Dir \<Rightarrow>
                        (case ensureDir destPath w1 of
                           (Inl err, w2) \<Rightarrow> (Inl err, w2)
                         | (Inr _, w2) \<Rightarrow> walk n targetFolder diffFolder srcPath w2)
                    | File _ \<Rightarrow> restore_file srcPath destPath w1) of
                (Inl err, w3) \<Rightarrow> (Inl err, w3)
              | (Inr _, w3) \<Rightarrow> walk_items n targetFolder diffFolder currentPath items w3))"

definition restoreDiff :: "nat \<Rightarrow> path \<Rightarrow> path \<Rightarrow> path \<Rightarrow> unit io" where
  "restoreDiff fuel targetFolder diffFolder metadataPath =
     io_bind (load_removed metadataPath) (\<lambda>removedItems.
       io_then (handle_removals targetFolder removedItems)
         (walk fuel targetFolder diffFolder diffFolder))"

definition default_metadataPath :: "path \<Rightarrow> path" where
  "default_metadataPath diffFolder = path_join diffFolder manifest_name"

section \<open>What the claims speak about\<close>

text \<open>The tree below a folder: every entry with its path relative to the folder.\<close>

definition tree_of :: "fs \<Rightarrow> path \<Rightarrow> (path \<times> node) set" where
  "tree_of fs root =
     set (map (\<lambda>(k, n). (drop (length root) k, n)) (filter (\<lambda>(k, _). strict_prefix root k) fs))"

text \<open>\<open>createDiff\<close> followed by \<open>restoreDiff\<close> with the default manifest path, and
  \<open>restoreDiff\<close> run twice.\<close>

definition roundtrip :: "comparator \<Rightarrow> nat \<Rightarrow> path \<Rightarrow> path \<Rightarrow> path \<Rightarrow> unit io" where
  "roundtrip compare fuel folderA folderB diffFolder =
     io_then (createDiff compare folderA folderB diffFolder)
       (restoreDiff fuel folderA diffFolder (default_metadataPath diffFolder))"

definition restore_twice :: "nat \<Rightarrow> path \<Rightarrow> path \<Rightarrow> unit io" where
  "restore_twice fuel targetFolder diffFolder =
     io_then (restoreDiff fuel targetFolder diffFolder (default_metadataPath diffFolder))
       (restoreDiff fuel targetFolder diffFolder (default_metadataPath diffFolder))"

text \<open>The removal list of a \<open>diffSet\<close>: the paths of its \<open>left\<close> entries, in order.\<close>

definition removal_list :: "entry list \<Rightarrow> string list" where
  "removal_list ds = map relativeFilePath (filter (\<lambda>e. state e = Left) ds)"

text \<open>The events of the two phases of \<open>restoreDiff\<close>: the removal phase checks
  existence, reads the manifest and removes; the replay starts with a \<open>readdir\<close>.\<close>

fun removal_op :: "op \<Rightarrow> bool" where
  "removal_op (OpPathExists _) = True"
| "removal_op (OpReadJson _) = True"
| "removal_op (OpRemove _) = True"
| "removal_op _ = False"

fun lstat_op :: "op \<Rightarrow> bool" where
  "lstat_op (OpLstat _) = True"
| "lstat_op _ = False"

text \<open>A trace is quiet when its only failures are failures of \<open>lstat\<close>.\<close>

definition quiet :: "event list \<Rightarrow> bool" where
  "quiet t = list_all (\<lambda>(a, r). r = Done \<or> lstat_op a) t"

fun writeJson_op :: "op \<Rightarrow> bool" where
  "writeJson_op (OpWriteJson _) = True"
| "writeJson_op _ = False"

text \<open>Three properties of a computation, each kept by sequencing: every event it adds
  satisfies \<open>P\<close>; every exception it raises satisfies \<open>P\<close>; and, started on a quiet
  trace, it either stays quiet and raises no I/O error, or its last event is a failure
  and the exception raised is that failure.\<close>

definition emits :: "(op \<Rightarrow> bool) \<Rightarrow> 'a io \<Rightarrow> bool" where
  "emits P m = (\<forall>w r w'. m w = (r, w') \<longrightarrow>
      (\<exists>t. trace w' = trace w @ t \<and> list_all (\<lambda>ev. P (fst ev)) t))"

definition raises :: "(error \<Rightarrow> bool) \<Rightarrow> 'a io \<Rightarrow> bool" where
  "raises P m = (\<forall>w e w'. m w = (Inl e, w') \<longrightarrow> P e)"

definition settled :: "event list \<Rightarrow> error + 'a \<Rightarrow> bool" where
  "settled t r =
     ((quiet t \<and> (\<forall>a c. r \<noteq> Inl (IOError a c))) \<or>
      (\<exists>a c pre. r = Inl (IOError a c) \<and> t = pre @ [(a, Failed c)] \<and> quiet pre))"

definition propagates :: "'a io \<Rightarrow> bool" where
  "propagates m = (\<forall>w r w'. m w = (r, w') \<longrightarrow> quiet (trace w) \<longrightarrow>
      (\<exists>t. trace w' = trace w @ t \<and> settled t r))"

text \<open>A computation that raises an exception from every state.\<close>

definition always_fails :: "'a io \<Rightarrow> bool" where
  "always_fails m = (\<forall>w. isl (fst (m w)))"

text \<open>The body of the loop of \<open>walk\<close>, for one item.\<close>

definition visit :: "nat \<Rightarrow> path \<Rightarrow> path \<Rightarrow> path \<Rightarrow> string \<Rightarrow> unit io" where
  "visit n T D cur item =
     (let srcPath = path_join cur item;
          destPath = path_join T (path_relative D srcPath)
      in io_bind (lstat srcPath) (\<lambda>stats.
           case stats of
             Link _ \<Rightarrow> restore_symlink srcPath destPath
           | Dir \<Rightarrow> io_then (ensureDir destPath) (walk n T D srcPath)
           | File _ \<Rightarrow> restore_file srcPath destPath))"

fun is_link :: "node \<Rightarrow> bool" where
  "is_link (Link _) = True"
| "is_link _ = False"

text \<open>\<open>createDiff\<close> on a \<open>diffSet\<close>, up to the point where the manifest is written or
  not: the diff folder is cleared and the entries are processed.\<close>

definition build_entries :: "path \<Rightarrow> path \<Rightarrow> entry list \<Rightarrow> string list io" where
  "build_entries B D ds =
     io_then (remove D) (io_then (ensureDir D) (process_entries B D ds []))"

text \<open>A trace in which every successful \<open>remove\<close> is followed at once by a \<open>symlink\<close>
  call at the same path, and a computation that adds such traces only.\<close>

fun remove_path :: "op \<Rightarrow> path option" where
  "remove_path (OpRemove p) = Some p"
| "remove_path _ = None"

fun symlink_path :: "op \<Rightarrow> path option" where
  "symlink_path (OpSymlink _ p) = Some p"
| "symlink_path _ = None"

fun replaced :: "event list \<Rightarrow> bool" where
  "replaced [] = True"
| "replaced [(a, r)] = (remove_path a = None \<or> r \<noteq> Done)"
| "replaced ((a, r) # (b, r') # rest) =
     (if remove_path a \<noteq> None \<and> r = Done
      then symlink_path b = remove_path a \<and> replaced rest
      else replaced ((b, r') # rest))"

definition tidy :: "'a io \<Rightarrow> bool" where
  "tidy m = (\<forall>w r w'. m w = (r, w') \<longrightarrow> (\<exists>t. trace w' = trace w @ t \<and> replaced t))"

text \<open>The errors \<open>createDiff\<close> can raise, each with what it says of the comparator's
  outcome \<open>r\<close>.\<close>

definition build_error :: "compare_result \<Rightarrow> error \<Rightarrow> bool" where
  "build_error r e =
     (case e of
        IOError a c \<Rightarrow> \<not> lstat_op a
      | ComparisonError m \<Rightarrow> r = CompareFails m
      | EmptyResult \<Rightarrow> r = CompareOk None
      | InvalidEntry x \<Rightarrow>
          (case r of CompareOk (Some ds) \<Rightarrow> find invalid_entry ds = Some x | _ \<Rightarrow> False)
      | InvalidPath \<Rightarrow> False
      | OutOfFuel \<Rightarrow> False)"

text \<open>A successful \<open>remove\<close>, and a computation that, as long as it makes none, leaves
  every link where it is and as it is.\<close>

definition removed_ev :: "event \<Rightarrow> bool" where
  "removed_ev ev = (remove_path (fst ev) \<noteq> None \<and> snd ev = Done)"

definition keeps_links :: "'a io \<Rightarrow> bool" where
  "keeps_links m = (\<forall>w r w'. m w = (r, w') \<longrightarrow>
      (\<exists>t. trace w' = trace w @ t \<and>
         (\<not> list_ex removed_ev t \<longrightarrow>
            (\<forall>p l. fs_lstat (files w) p = Inr (Link l) \<longrightarrow> fs_lstat (files w') p = Inr (Link l)))))"

subsection \<open>Concrete runs\<close>

text \<open>The scenario of the README: \<open>file1.txt\<close> modified, \<open>file2.txt\<close> removed,
  \<open>file3.txt\<close> added, classified as \<open>dir-compare\<close> classifies them.\<close>

definition readme_world :: world where
  "readme_world = \<lparr>files =
     [([''A''], Dir),
      ([''A'', ''file1.txt''], File (Bytes ''Original content'')),
      ([''A'', ''file2.txt''], File (Bytes ''To be deleted'')),
      ([''B''], Dir),
      ([''B'', ''file1.txt''], File (Bytes ''Modified content'')),
      ([''B'', ''file3.txt''], File (Bytes ''New file''))],
     trace = []\<rparr>"

definition readme_diffSet :: "entry list" where
  "readme_diffSet =
     [\<lparr>state = Distinct, name1 = Some ''file1.txt'', name2 = Some ''file1.txt'',
       relativePath = Some ''/'', type1 = FileT, type2 = FileT\<rparr>,
      \<lparr>state = Left, name1 = Some ''file2.txt'', name2 = None,
       relativePath = Some ''/'', type1 = FileT, type2 = Missing\<rparr>,
      \<lparr>state = Right, name1 = None, name2 = Some ''file3.txt'',
       relativePath = Some ''/'', type1 = Missing, type2 = FileT\<rparr>]"

definition manifest_only_world :: world where
  "manifest_only_world = \<lparr>files =
     [([''T''], Dir), ([''D''], Dir),
      ([''D'', manifest_name], File (Json (Some [''/x''])))],
     trace = []\<rparr>"

definition dangling_diff_world :: world where
  "dangling_diff_world = \<lparr>files =
     [([''T''], Dir), ([''D''], Dir), ([''D'', ''l''], Link ''gone'')],
     trace = []\<rparr>"

definition dangling_target_world :: world where
  "dangling_target_world = \<lparr>files =
     [([''T''], Dir), ([''T'', ''old''], Link ''gone''), ([''D''], Dir),
      ([''D'', manifest_name], File (Json (Some [''/old''])))],
     trace = []\<rparr>"

definition relinked_world :: world where
  "relinked_world = \<lparr>files =
     [([''A''], Dir), ([''A'', ''l''], Link ''gone1''),
      ([''B''], Dir), ([''B'', ''l''], Link ''gone2'')],
     trace = []\<rparr>"

definition relinked_diffSet :: "entry list" where
  "relinked_diffSet =
     [\<lparr>state = Distinct, name1 = Some ''l'', name2 = Some ''l'',
       relativePath = Some ''/'', type1 = BrokenLink, type2 = BrokenLink\<rparr>]"

definition added_dir_world :: world where
  "added_dir_world = \<lparr>files =
     [([''A''], Dir), ([''B''], Dir), ([''B'', ''f''], File (Bytes ''x'')),
      ([''B'', ''d''], Dir), ([''B'', ''d'', ''l''], Link ''../f'')],
     trace = []\<rparr>"

definition added_dir_diffSet :: "entry list" where
  "added_dir_diffSet =
     [\<lparr>state = Right, name1 = None, name2 = Some ''f'',
       relativePath = Some ''/'', type1 = Missing, type2 = FileT\<rparr>,
      \<lparr>state = Right, name1 = None, name2 = Some ''d'',
       relativePath = Some ''/'', type1 = Missing, type2 = DirectoryT\<rparr>,
      \<lparr>state = Right, name1 = None, name2 = Some ''l'',
       relativePath = Some ''/d'', type1 = Missing, type2 = FileT\<rparr>]"

definition vanished_world :: world where
  "vanished_world = \<lparr>files =
     [([''A''], Dir), ([''B''], Dir), ([''B'', ''f''], File (Bytes ''x''))],
     trace = []\<rparr>"

definition vanished_diffSet :: "entry list" where
  "vanished_diffSet =
     [\<lparr>state = Right, name1 = None, name2 = Some ''g'',
       relativePath = Some ''/'', type1 = Missing, type2 = BrokenLink\<rparr>,
      \<lparr>state = Right, name1 = None, name2 = Some ''f'',
       relativePath = Some ''/'', type1 = Missing, type2 = FileT\<rparr>]"


definition nameless_entry :: entry where
  "nameless_entry =
     \<lparr>state = Right, name1 = None, name2 = None,
      relativePath = Some ''/'', type1 = Missing, type2 = FileT\<rparr>"

definition nameless_diffSet :: "entry list" where
  "nameless_diffSet =
     [\<lparr>state = Right, name1 = None, name2 = Some ''f'',
       relativePath = Some ''/'', type1 = Missing, type2 = FileT\<rparr>,
      nameless_entry]"

definition manifest_in_B_world :: world where
  "manifest_in_B_world = \<lparr>files =
     [([''A''], Dir), ([''A'', ''keep''], File (Bytes ''k'')),
      ([''B''], Dir), ([''B'', ''keep''], File (Bytes ''k'')),
      ([''B'', manifest_name], File (Json (Some [''/keep''])))],
     trace = []\<rparr>"

definition manifest_in_B_diffSet :: "entry list" where
  "manifest_in_B_diffSet =
     [\<lparr>state = Equal, name1 = Some ''keep'', name2 = Some ''keep'',
       relativePath = Some ''/'', type1 = FileT, type2 = FileT\<rparr>,
      \<lparr>state = Right, name1 = None, name2 = Some manifest_name,
       relativePath = Some ''/'', type1 = Missing, type2 = FileT\<rparr>]"

definition link_over_file_world :: world where
  "link_over_file_world = \<lparr>files =
     [([''T''], Dir), ([''T'', ''l''], File (Bytes ''old'')), ([''T'', ''x''], File (Bytes ''x'')),
      ([''D''], Dir), ([''D'', ''l''], Link ''x'')],
     trace = []\<rparr>"

definition blocked_world :: world where
  "blocked_world = \<lparr>files =
     [([''A''], Dir), ([''B''], Dir), ([''f''], File (Bytes ''x''))],
     trace = []\<rparr>"


definition listed_dangling_world :: world where
  "listed_dangling_world = \<lparr>files =
     [([''T''], Dir), ([''T'', ''p''], Link ''gone''),
      ([''D''], Dir), ([''D'', ''p''], File (Bytes ''new'')),
      ([''D'', manifest_name], File (Json (Some [''/p''])))],
     trace = []\<rparr>"

definition const_comparator :: "compare_result \<Rightarrow> comparator" where
  "const_comparator r = (\<lambda>_ _ _. r)"

section \<open>Traces and exceptions of composed runs\<close>

lemma quiet_append: "quiet (s @ t) = (quiet s \<and> quiet t)"
  by (simp add: quiet_def)

lemma quiet_Nil: "quiet []"
  by (simp add: quiet_def)

lemma trace_log_event: "trace (log_event a r w) = trace w @ [(a, r)]"
  by (simp add: log_event_def)

lemma files_log_event: "files (log_event a r w) = files w"
  by (simp add: log_event_def)

lemma emits_return: "emits P (io_return x)"
  by (simp add: emits_def io_return_def)

lemma emits_throw: "emits P (io_throw e)"
  by (simp add: emits_def io_throw_def)

lemma emits_bind:
  assumes "emits P m" and "\<And>x. emits P (f x)"
  shows "emits P (io_bind m f)"
  unfolding emits_def
proof (intro allI impI)
  fix w r w'
  assume run: "io_bind m f w = (r, w')"
  obtain r1 w1 where m: "m w = (r1, w1)" by (cases "m w")
  from assms(1) m obtain t1 where t1: "trace w1 = trace w @ t1" "list_all (\<lambda>ev. P (fst ev)) t1"
    unfolding emits_def by blast
  show "\<exists>t. trace w' = trace w @ t \<and> list_all (\<lambda>ev. P (fst ev)) t"
  proof (cases r1)
    case (Inl e)
    with run m have "w' = w1" by (simp add: io_bind_def)
    with t1 show ?thesis by blast
  next
    case (Inr x)
    with run m have "f x w1 = (r, w')" by (simp add: io_bind_def)
    with assms(2)[of x] obtain t2 where "trace w' = trace w1 @ t2" "list_all (\<lambda>ev. P (fst ev)) t2"
      unfolding emits_def by blast
    with t1 have "trace w' = trace w @ (t1 @ t2) \<and> list_all (\<lambda>ev. P (fst ev)) (t1 @ t2)" by simp
    then show ?thesis by blast
  qed
qed

lemma emits_then: "emits P m \<Longrightarrow> emits P k \<Longrightarrow> emits P (io_then m k)"
  by (simp add: io_then_def emits_bind)

lemma emits_run: "P a \<Longrightarrow> emits P (run a f)"
  by (auto simp: emits_def run_def trace_log_event split: sum.splits)

lemma emits_query: "P a \<Longrightarrow> emits P (query a f)"
  by (auto simp: emits_def query_def trace_log_event split: sum.splits)

lemma emits_pathExists: "P (OpPathExists p) \<Longrightarrow> emits P (pathExists p)"
  by (auto simp: emits_def pathExists_def trace_log_event)

lemma raises_return: "raises P (io_return x)"
  by (simp add: raises_def io_return_def)

lemma raises_throw: "P e \<Longrightarrow> raises P (io_throw e)"
  by (simp add: raises_def io_throw_def)

lemma raises_bind:
  assumes r: "raises P m" and f: "\<And>x. raises P (f x)"
  shows "raises P (io_bind m f)"
  unfolding raises_def
proof (intro allI impI)
  fix w e w'
  assume run: "io_bind m f w = (Inl e, w')"
  obtain r1 w1 where m: "m w = (r1, w1)" by (cases "m w")
  show "P e"
  proof (cases r1)
    case (Inl e1)
    with run m have "e1 = e" "w1 = w'" by (simp_all add: io_bind_def)
    with r m Inl show ?thesis unfolding raises_def by blast
  next
    case (Inr x)
    with run m have "f x w1 = (Inl e, w')" by (simp add: io_bind_def)
    with f[of x] show ?thesis unfolding raises_def by blast
  qed
qed

lemma raises_then: "raises P m \<Longrightarrow> raises P k \<Longrightarrow> raises P (io_then m k)"
  by (simp add: io_then_def raises_bind)

lemma raises_run: "(\<And>c. P (IOError a c)) \<Longrightarrow> raises P (run a f)"
  by (auto simp: raises_def run_def split: sum.splits)

lemma raises_query: "(\<And>c. P (IOError a c)) \<Longrightarrow> raises P (query a f)"
  by (auto simp: raises_def query_def split: sum.splits)

lemma propagatesI:
  assumes "\<And>w r w'. m w = (r, w') \<Longrightarrow> quiet (trace w) \<Longrightarrow> \<exists>t. trace w' = trace w @ t \<and> settled t r"
  shows "propagates m"
  using assms unfolding propagates_def by blast

lemma propagatesD:
  assumes "propagates m" and "m w = (r, w')" and "quiet (trace w)"
  shows "\<exists>t. trace w' = trace w @ t \<and> settled t r"
  using assms unfolding propagates_def by blast

lemma settled_Nil: "(\<And>a c. r \<noteq> Inl (IOError a c)) \<Longrightarrow> settled [] r"
  by (simp add: settled_def quiet_def)

lemma settled_Done: "(\<And>b c. r \<noteq> Inl (IOError b c)) \<Longrightarrow> settled [(a, Done)] r"
  by (simp add: settled_def quiet_def)

lemma settled_Failed: "settled [(a, Failed c)] (Inl (IOError a c))"
proof -
  have "[(a, Failed c)] = [] @ [(a, Failed c)] \<and> quiet []" by (simp add: quiet_def)
  then show ?thesis unfolding settled_def by blast
qed

lemma settled_append:
  assumes "quiet s" and "settled t r"
  shows "settled (s @ t) r"
proof -
  from assms(2) consider
      (q) "quiet t" "\<forall>a c. r \<noteq> Inl (IOError a c)"
    | (f) a c pre where "r = Inl (IOError a c)" "t = pre @ [(a, Failed c)]" "quiet pre"
    unfolding settled_def by blast
  then show ?thesis
  proof cases
    case q
    with assms(1) show ?thesis by (simp add: settled_def quiet_append)
  next
    case f
    with assms(1) have "r = Inl (IOError a c) \<and> s @ t = (s @ pre) @ [(a, Failed c)] \<and> quiet (s @ pre)"
      by (simp add: quiet_append)
    then show ?thesis unfolding settled_def by blast
  qed
qed

lemma settled_Inr_quiet: "settled t (Inr x) \<Longrightarrow> quiet t"
  by (auto simp: settled_def)

lemma propagates_return: "propagates (io_return x)"
  by (rule propagatesI) (simp add: io_return_def settled_Nil)

lemma propagates_throw: "(\<And>a c. e \<noteq> IOError a c) \<Longrightarrow> propagates (io_throw e)"
  by (rule propagatesI) (auto simp add: io_throw_def intro!: settled_Nil)

lemma propagates_run: "propagates (run a f)"
proof (rule propagatesI)
  fix w r w'
  assume run: "run a f w = (r, w')"
  show "\<exists>t. trace w' = trace w @ t \<and> settled t r"
  proof (cases "f (files w)")
    case (Inl e)
    with run have "trace w' = trace w @ [(a, Failed e)]" "r = Inl (IOError a e)"
      by (auto simp: run_def trace_log_event)
    then show ?thesis using settled_Failed by blast
  next
    case (Inr fs')
    with run have "trace w' = trace w @ [(a, Done)]" "r = Inr ()"
      by (auto simp: run_def trace_log_event)
    moreover have "settled [(a, Done)] (Inr () :: error + unit)" by (rule settled_Done) simp
    ultimately show ?thesis by blast
  qed
qed

lemma propagates_query: "propagates (query a f)"
proof (rule propagatesI)
  fix w r w'
  assume run: "query a f w = (r, w')"
  show "\<exists>t. trace w' = trace w @ t \<and> settled t r"
  proof (cases "f (files w)")
    case (Inl e)
    with run have "trace w' = trace w @ [(a, Failed e)]" "r = Inl (IOError a e)"
      by (auto simp: query_def trace_log_event)
    then show ?thesis using settled_Failed by blast
  next
    case (Inr x)
    with run have "trace w' = trace w @ [(a, Done)]" "r = Inr x"
      by (auto simp: query_def trace_log_event)
    moreover have "settled [(a, Done)] (Inr x :: error + 'a)" by (rule settled_Done) simp
    ultimately show ?thesis by blast
  qed
qed

lemma propagates_pathExists: "propagates (pathExists p)"
proof (rule propagatesI)
  fix w r w'
  assume run: "pathExists p w = (r, w')"
  then have "trace w' = trace w @ [(OpPathExists p, Done)]" "r = Inr (fs_pathExists (files w) p)"
    by (auto simp: pathExists_def trace_log_event)
  moreover have "settled [(OpPathExists p, Done)] (Inr (fs_pathExists (files w) p) :: error + bool)"
    by (rule settled_Done) simp
  ultimately show "\<exists>t. trace w' = trace w @ t \<and> settled t r" by blast
qed

lemma propagates_bind:
  assumes "propagates m" and "\<And>x. propagates (f x)"
  shows "propagates (io_bind m f)"
proof (rule propagatesI)
  fix w r w'
  assume run: "io_bind m f w = (r, w')" and q: "quiet (trace w)"
  obtain r1 w1 where m: "m w = (r1, w1)" by (cases "m w")
  from propagatesD[OF assms(1) m q] obtain t1
    where t1: "trace w1 = trace w @ t1" and c1: "settled t1 r1" by blast
  show "\<exists>t. trace w' = trace w @ t \<and> settled t r"
  proof (cases r1)
    case (Inl e)
    with run m have "w' = w1" "r = Inl e" by (simp_all add: io_bind_def)
    moreover from c1 Inl have "settled t1 (Inl e :: error + 'b)" by (simp add: settled_def)
    ultimately show ?thesis using t1 by blast
  next
    case (Inr x)
    with run m have fx: "f x w1 = (r, w')" by (simp add: io_bind_def)
    from Inr c1 have q1: "quiet t1" by (simp add: settled_Inr_quiet)
    with q t1 have "quiet (trace w1)" by (simp add: quiet_append)
    from propagatesD[OF assms(2) fx this] obtain t2
      where t2: "trace w' = trace w1 @ t2" and c2: "settled t2 r" by blast
    from t1 t2 have "trace w' = trace w @ (t1 @ t2)" by simp
    moreover from q1 c2 have "settled (t1 @ t2) r" by (rule settled_append)
    ultimately show ?thesis by blast
  qed
qed

lemma propagates_then: "propagates m \<Longrightarrow> propagates k \<Longrightarrow> propagates (io_then m k)"
  by (simp add: io_then_def propagates_bind)

lemma propagates_isSymlink: "propagates (isSymlink p)"
proof (rule propagatesI)
  fix w r w'
  assume run: "isSymlink p w = (r, w')"
  have "\<exists>o' b. trace w' = trace w @ [(OpLstat p, o')] \<and> r = Inr b"
  proof (cases "fs_lstat (files w) p")
    case (Inl e)
    with run show ?thesis by (auto simp: isSymlink_def lstat_def query_def trace_log_event)
  next
    case (Inr n)
    with run show ?thesis by (auto simp: isSymlink_def lstat_def query_def trace_log_event)
  qed
  then obtain o' b where *: "trace w' = trace w @ [(OpLstat p, o')]" "r = Inr b" by blast
  have "settled [(OpLstat p, o')] (Inr b :: error + bool)" by (simp add: settled_def quiet_def)
  with * show "\<exists>t. trace w' = trace w @ t \<and> settled t r" by blast
qed

subsection \<open>The runs of \<open>createDiff\<close>\<close>

lemmas prim_defs = ensureDir_def remove_def symlink_def readlink_def lstat_def copy_def
  copyFile_def writeJson_def readJson_def readdir_def

lemma process_entries_Cons:
  "process_entries B D (e # es) removed =
     io_bind (process_entry B D e removed) (\<lambda>removed'. process_entries B D es removed')"
  by (rule ext) (simp add: io_bind_def split: prod.splits sum.splits)

lemma process_entries_Nil: "process_entries B D [] removed = io_return removed"
  by (rule ext) (simp add: io_return_def)

lemma handle_removals_Cons:
  "handle_removals T (i # rest) = io_then (remove_item T i) (handle_removals T rest)"
  by (rule ext) (simp add: io_then_def io_bind_def split: prod.splits sum.splits)

lemma handle_removals_Nil: "handle_removals T [] = io_return ()"
  by (rule ext) (simp add: io_return_def)

lemma propagates_materialize: "propagates (materialize s t ty)"
  unfolding materialize_def prim_defs
  by (intro propagates_then propagates_bind propagates_run propagates_isSymlink)
     (simp_all add: propagates_bind propagates_query propagates_run propagates_return)

lemma propagates_process_entry: "propagates (process_entry B D e removed)"
  unfolding process_entry_def Let_def
  by (cases "state e")
     (simp_all add: propagates_throw propagates_return propagates_then propagates_materialize)

lemma propagates_process_entries: "propagates (process_entries B D ds removed)"
proof (induction ds arbitrary: removed)
  case Nil
  show ?case by (simp add: process_entries_Nil propagates_return)
next
  case (Cons e es)
  show ?case unfolding process_entries_Cons
    by (rule propagates_bind) (simp_all add: propagates_process_entry Cons)
qed

lemma propagates_compareDirectories: "propagates (compareDirectories cmp p1 p2)"
proof (rule propagatesI)
  fix w r w'
  assume run: "compareDirectories cmp p1 p2 w = (r, w')"
  then have "w' = w" "\<forall>a c. r \<noteq> Inl (IOError a c)"
    by (auto simp: compareDirectories_def split: compare_result.splits)
  then have "trace w' = trace w @ [] \<and> settled [] r" by (simp add: settled_Nil)
  then show "\<exists>t. trace w' = trace w @ t \<and> settled t r" by blast
qed

lemma propagates_createDiff: "propagates (createDiff cmp A B D)"
  unfolding createDiff_def prim_defs
  apply (intro propagates_then propagates_bind propagates_run propagates_compareDirectories)
  apply (simp split: option.split)
  apply (intro conjI allI impI propagates_throw propagates_bind propagates_process_entries)
   apply simp
  apply (simp add: propagates_run propagates_return)
  done

lemma raises_mono: "raises P m \<Longrightarrow> (\<And>e. P e \<Longrightarrow> Q e) \<Longrightarrow> raises Q m"
  unfolding raises_def by blast

lemma raises_isSymlink: "raises P (isSymlink p)"
  by (auto simp: raises_def isSymlink_def split: prod.splits sum.splits)

lemma io_bind_return: "io_bind (io_return x) f = f x"
  by (rule ext) (simp add: io_bind_def io_return_def)

lemma io_bind_throw: "io_bind (io_throw e) f = io_throw e"
  by (rule ext) (simp add: io_bind_def io_throw_def)

lemma compareDirectories_const:
  "compareDirectories (const_comparator r) p1 p2 =
     (case r of CompareFails m \<Rightarrow> io_throw (ComparisonError m) | CompareOk res \<Rightarrow> io_return res)"
  by (rule ext)
     (simp add: compareDirectories_def const_comparator_def io_throw_def io_return_def
           split: compare_result.splits)

lemma createDiff_CompareFails:
  "createDiff (const_comparator (CompareFails m)) A B D =
     io_then (remove D) (io_then (ensureDir D) (io_throw (ComparisonError m)))"
  by (simp add: createDiff_def compareDirectories_const io_bind_throw)

lemma createDiff_CompareOk:
  "createDiff (const_comparator (CompareOk (Some ds))) A B D =
     io_then (remove D) (io_then (ensureDir D)
       (io_bind (process_entries B D ds []) (\<lambda>removedItems.
          if length removedItems > 0
          then writeJson (path_join D manifest_name) removedItems
          else io_return ())))"
  by (simp add: createDiff_def compareDirectories_const io_bind_return)

lemma always_fails_throw: "always_fails (io_throw e)"
  by (simp add: always_fails_def io_throw_def)

lemma always_fails_bind1: "always_fails m \<Longrightarrow> always_fails (io_bind m f)"
  unfolding always_fails_def io_bind_def
proof
  fix w
  assume a: "\<forall>w. isl (fst (m w))"
  obtain r w1 where m: "m w = (r, w1)" by (cases "m w")
  with a[rule_format, of w] obtain e where "r = Inl e" by (cases r) auto
  with m show "isl (fst (case m w of (Inl e, w') \<Rightarrow> (Inl e, w') | (Inr x, w') \<Rightarrow> f x w'))" by simp
qed

lemma always_fails_bind2: "(\<And>x. always_fails (f x)) \<Longrightarrow> always_fails (io_bind m f)"
  unfolding always_fails_def io_bind_def
proof
  fix w
  assume a: "\<And>x. \<forall>w. isl (fst (f x w))"
  obtain r w1 where m: "m w = (r, w1)" by (cases "m w")
  show "isl (fst (case m w of (Inl e, w') \<Rightarrow> (Inl e, w') | (Inr x, w') \<Rightarrow> f x w'))"
  proof (cases r)
    case (Inl e) with m show ?thesis by simp
  next
    case (Inr x) with m a[of x] show ?thesis by simp
  qed
qed

lemma always_fails_then: "always_fails k \<Longrightarrow> always_fails (io_then m k)"
  by (simp add: io_then_def always_fails_bind2)

lemma always_fails_process_entries:
  "list_ex invalid_entry ds \<Longrightarrow> always_fails (process_entries B D ds removed)"
proof (induction ds arbitrary: removed)
  case Nil
  then show ?case by simp
next
  case (Cons e es)
  show ?case
  proof (cases "invalid_entry e")
    case True
    then have "process_entry B D e removed = io_throw (InvalidEntry e)"
      by (simp add: process_entry_def)
    then show ?thesis
      by (simp add: process_entries_Cons always_fails_bind1 always_fails_throw)
  next
    case False
    with Cons.prems have "list_ex invalid_entry es" by simp
    then have "\<And>r. always_fails (process_entries B D es r)" by (rule Cons.IH)
    then show ?thesis by (simp add: process_entries_Cons always_fails_bind2)
  qed
qed

lemma raises_materialize:
  assumes "\<And>a c. P (IOError a c)"
  shows "raises P (materialize s t ty)"
  unfolding materialize_def prim_defs
  by (intro raises_then raises_bind raises_run raises_isSymlink)
     (simp_all add: raises_bind raises_query raises_run raises_return assms)

lemma raises_process_entry_gen:
  assumes "invalid_entry e \<Longrightarrow> P (InvalidEntry e)" and "P InvalidPath" and "\<And>a c. P (IOError a c)"
  shows "raises P (process_entry B D e removed)"
  unfolding process_entry_def Let_def
  by (cases "state e")
     (simp_all add: raises_throw raises_return raises_then raises_materialize assms)

lemma raises_process_entry:
  "raises (\<lambda>err. \<forall>x. err = InvalidEntry x \<longrightarrow> x = e \<and> invalid_entry e) (process_entry B D e removed)"
  by (rule raises_process_entry_gen) simp_all

lemma raises_process_entries:
  "raises (\<lambda>err. \<forall>x. err = InvalidEntry x \<longrightarrow> x \<in> set ds \<and> invalid_entry x)
     (process_entries B D ds removed)"
proof (induction ds arbitrary: removed)
  case Nil
  show ?case by (simp add: process_entries_Nil raises_return)
next
  case (Cons e es)
  have 1: "raises (\<lambda>err. \<forall>x. err = InvalidEntry x \<longrightarrow> x \<in> set (e # es) \<and> invalid_entry x)
             (process_entry B D e removed)"
    by (rule raises_mono[OF raises_process_entry]) auto
  have 2: "\<And>r. raises (\<lambda>err. \<forall>x. err = InvalidEntry x \<longrightarrow> x \<in> set (e # es) \<and> invalid_entry x)
             (process_entries B D es r)"
    by (rule raises_mono[OF Cons.IH]) auto
  show ?case unfolding process_entries_Cons by (rule raises_bind[OF 1 2])
qed

lemma raises_createDiff_invalid:
  "raises (\<lambda>err. \<forall>x. err = InvalidEntry x \<longrightarrow> x \<in> set ds \<and> invalid_entry x)
     (createDiff (const_comparator (CompareOk (Some ds))) A B D)"
  unfolding createDiff_CompareOk prim_defs
  by (intro raises_then raises_bind raises_run raises_process_entries)
     (simp_all add: raises_run raises_return)

lemma raises_createDiff_fails:
  "raises (\<lambda>err. err = ComparisonError m \<or> (\<exists>c. err = IOError (OpRemove D) c)
                   \<or> (\<exists>c. err = IOError (OpEnsureDir D) c))
     (createDiff (const_comparator (CompareFails m)) A B D)"
  unfolding createDiff_CompareFails prim_defs
  by (intro raises_then raises_run raises_throw) simp_all

lemma always_fails_createDiff_fails:
  "always_fails (createDiff (const_comparator (CompareFails m)) A B D)"
  unfolding createDiff_CompareFails
  by (intro always_fails_then always_fails_throw)

lemma always_fails_createDiff_invalid:
  "list_ex invalid_entry ds \<Longrightarrow>
   always_fails (createDiff (const_comparator (CompareOk (Some ds))) A B D)"
  unfolding createDiff_CompareOk
  by (intro always_fails_then always_fails_bind1 always_fails_process_entries)

lemma emitsD:
  assumes "emits P m" and "m w = (r, w')"
  shows "\<exists>t. trace w' = trace w @ t \<and> list_all (\<lambda>ev. P (fst ev)) t"
  using assms unfolding emits_def by blast

lemma io_bind_InrD:
  assumes "io_bind m f w = (Inr y, w')"
  shows "\<exists>x w1. m w = (Inr x, w1) \<and> f x w1 = (Inr y, w')"
proof -
  obtain r w1 where m: "m w = (r, w1)" by (cases "m w")
  show ?thesis
  proof (cases r)
    case (Inl e)
    with m assms show ?thesis by (simp add: io_bind_def)
  next
    case (Inr x)
    with m assms have "f x w1 = (Inr y, w')" by (simp add: io_bind_def)
    with m Inr show ?thesis by blast
  qed
qed

lemma io_then_InrD:
  assumes "io_then m k w = (Inr y, w')"
  shows "\<exists>w1. m w = (Inr (), w1) \<and> k w1 = (Inr y, w')"
  using io_bind_InrD[of m "\<lambda>_. k" w y w'] assms by (simp add: io_then_def)

lemma process_entry_removed:
  assumes "process_entry B D e acc w = (Inr acc', w')"
  shows "acc' = acc @ (if state e = Left then [relativeFilePath e] else [])"
proof -
  have valid: "\<not> invalid_entry e" "relativeFilePath e \<noteq> []"
    using assms by (auto simp: process_entry_def io_throw_def split: if_splits)
  show ?thesis
  proof (cases "state e")
    case Equal
    with assms valid show ?thesis by (simp add: process_entry_def io_return_def)
  next
    case Left
    with assms valid show ?thesis by (simp add: process_entry_def io_return_def)
  next
    case Right
    with assms valid obtain s t where
      "io_then (materialize s t (type2 e)) (io_return acc) w = (Inr acc', w')"
      by (simp add: process_entry_def Let_def)
    from io_then_InrD[OF this] Right show ?thesis by (auto simp: io_return_def)
  next
    case Distinct
    with assms valid obtain s t where
      "io_then (materialize s t (type2 e)) (io_return acc) w = (Inr acc', w')"
      by (simp add: process_entry_def Let_def)
    from io_then_InrD[OF this] Distinct show ?thesis by (auto simp: io_return_def)
  qed
qed

lemma process_entries_removed:
  "process_entries B D ds acc w = (Inr removed, w') \<Longrightarrow> removed = acc @ removal_list ds"
proof (induction ds arbitrary: acc w)
  case Nil
  then show ?case by (simp add: removal_list_def)
next
  case (Cons e es)
  from Cons.prems obtain acc1 w1 where
    1: "process_entry B D e acc w = (Inr acc1, w1)" and
    2: "process_entries B D es acc1 w1 = (Inr removed, w')"
    unfolding process_entries_Cons by (blast dest: io_bind_InrD)
  from Cons.IH[OF 2] process_entry_removed[OF 1] show ?case
    by (simp add: removal_list_def)
qed

lemma emits_isSymlink: "P (OpLstat p) \<Longrightarrow> emits P (isSymlink p)"
  by (auto simp: emits_def isSymlink_def lstat_def query_def trace_log_event split: sum.splits)

lemma emits_materialize_nowrite: "emits (\<lambda>a. \<not> writeJson_op a) (materialize s t ty)"
  unfolding materialize_def prim_defs
  by (intro emits_then emits_bind emits_run emits_isSymlink)
     (simp_all add: emits_bind emits_query emits_run emits_return)

lemma emits_process_entry_nowrite: "emits (\<lambda>a. \<not> writeJson_op a) (process_entry B D e acc)"
  unfolding process_entry_def Let_def
  by (cases "state e")
     (simp_all add: emits_throw emits_return emits_then emits_materialize_nowrite)

lemma emits_process_entries_nowrite:
  "emits (\<lambda>a. \<not> writeJson_op a) (process_entries B D ds acc)"
proof (induction ds arbitrary: acc)
  case Nil
  show ?case by (simp add: process_entries_Nil emits_return)
next
  case (Cons e es)
  show ?case unfolding process_entries_Cons
    by (rule emits_bind) (simp_all add: emits_process_entry_nowrite Cons)
qed

lemma emits_build_nowrite:
  "emits (\<lambda>a. \<not> writeJson_op a)
     (io_then (remove D) (io_then (ensureDir D) (process_entries B D ds [])))"
  unfolding prim_defs
  by (intro emits_then emits_run emits_process_entries_nowrite) simp_all

lemma createDiff_CompareOk_assoc:
  "createDiff (const_comparator (CompareOk (Some ds))) A B D =
     io_bind (io_then (remove D) (io_then (ensureDir D) (process_entries B D ds [])))
       (\<lambda>removedItems.
          if length removedItems > 0
          then writeJson (path_join D manifest_name) removedItems
          else io_return ())"
  unfolding createDiff_CompareOk
  by (rule ext) (simp add: io_then_def io_bind_def split: prod.splits sum.splits)

lemma list_all_not_ex: "list_all (\<lambda>ev. \<not> P (fst ev)) t \<Longrightarrow> \<not> list_ex (\<lambda>ev. P (fst ev)) t"
  by (simp add: list_all_iff list_ex_iff)

lemma restoreDiff_without_manifest:
  assumes "\<not> fs_pathExists (files v) m"
  shows "restoreDiff fuel T D m v = walk fuel T D D (log_event (OpPathExists m) Done v)"
  using assms
  by (simp add: restoreDiff_def load_removed_def io_bind_def pathExists_def io_return_def
        io_then_def)

subsection \<open>The runs of \<open>restoreDiff\<close>\<close>

lemma walk_Suc:
  "walk (Suc n) T D cur = io_bind (readdir cur) (\<lambda>items. walk_items n T D cur items)"
  by (rule ext) (simp add: io_bind_def split: prod.splits sum.splits)

lemma walk_items_Cons:
  "walk_items n T D cur (item # items) = io_then (visit n T D cur item) (walk_items n T D cur items)"
  by (rule ext)
     (simp add: visit_def Let_def io_then_def io_bind_def split: prod.splits sum.splits node.splits)

lemma walk_items_Nil: "walk_items n T D cur [] = io_return ()"
  by (rule ext) (simp add: io_return_def)

lemma emits_restore_symlink: "emits (\<lambda>_. True) (restore_symlink s d)"
  unfolding restore_symlink_def prim_defs
  by (intro emits_bind emits_then emits_query emits_run emits_pathExists)
     (simp_all add: emits_run emits_return)

lemma emits_restore_file: "emits (\<lambda>_. True) (restore_file s d)"
  unfolding restore_file_def prim_defs
  by (intro emits_then emits_run) simp_all

lemma emits_visit:
  assumes "\<And>cur. emits (\<lambda>_. True) (walk n T D cur)"
  shows "emits (\<lambda>_. True) (visit n T D cur item)"
  unfolding visit_def Let_def lstat_def
  apply (rule emits_bind)
   apply (rule emits_query, simp)
  apply (simp split: node.split add: emits_restore_symlink emits_restore_file)
  apply (intro allI impI emits_then assms)
  apply (simp add: ensureDir_def emits_run)
  done

lemma emits_walk_items:
  assumes "\<And>cur. emits (\<lambda>_. True) (walk n T D cur)"
  shows "emits (\<lambda>_. True) (walk_items n T D cur items)"
proof (induction items)
  case Nil
  show ?case by (simp add: walk_items_Nil emits_return)
next
  case (Cons item items)
  show ?case unfolding walk_items_Cons
    by (rule emits_then[OF emits_visit[OF assms] Cons])
qed

lemma emits_walk: "emits (\<lambda>_. True) (walk n T D cur)"
proof (induction n arbitrary: cur)
  case 0
  show ?case by (simp add: emits_def)
next
  case (Suc n)
  show ?case unfolding walk_Suc readdir_def
    by (rule emits_bind) (simp_all add: emits_query emits_walk_items[OF Suc])
qed

lemma emits_load_removed: "emits removal_op (load_removed m)"
  unfolding load_removed_def prim_defs
  by (rule emits_bind) (simp_all add: emits_pathExists emits_bind emits_query emits_return)

lemma emits_remove_item: "emits removal_op (remove_item T i)"
  unfolding remove_item_def Let_def prim_defs
  by (rule emits_bind) (simp_all add: emits_pathExists emits_run emits_return)

lemma emits_handle_removals: "emits removal_op (handle_removals T removed)"
proof (induction removed)
  case Nil
  show ?case by (simp add: handle_removals_Nil emits_return)
next
  case (Cons i rest)
  show ?case unfolding handle_removals_Cons
    by (rule emits_then[OF emits_remove_item Cons])
qed

lemma remove_item_examines:
  assumes "remove_item T i w = (r, w')"
  shows "(OpPathExists (path_join T i), Done) \<in> set (trace w') \<and> set (trace w) \<subseteq> set (trace w')"
proof -
  let ?p = "path_join T i"
  let ?w1 = "log_event (OpPathExists ?p) Done w"
  have "w' = ?w1 \<or> (\<exists>r'. run (OpRemove ?p) (fs_remove ?p) ?w1 = (r', w'))"
    using assms
    by (auto simp: remove_item_def Let_def io_bind_def pathExists_def io_return_def remove_def
          split: if_splits)
  moreover have "\<And>r'. run (OpRemove ?p) (fs_remove ?p) ?w1 = (r', w') \<Longrightarrow>
      \<exists>t. trace w' = trace ?w1 @ t"
    using emitsD[OF emits_run[of "\<lambda>_. True"]] by blast
  ultimately show ?thesis by (auto simp: trace_log_event)
qed

lemma handle_removals_examines:
  "handle_removals T removed w = (Inr (), w') \<Longrightarrow>
   list_all (\<lambda>i. (OpPathExists (path_join T i), Done) \<in> set (trace w')) removed
   \<and> set (trace w) \<subseteq> set (trace w')"
proof (induction removed arbitrary: w)
  case Nil
  then show ?case by simp
next
  case (Cons i rest)
  from Cons.prems obtain w1 where
    1: "remove_item T i w = (Inr (), w1)" and 2: "handle_removals T rest w1 = (Inr (), w')"
    unfolding handle_removals_Cons by (blast dest: io_then_InrD)
  from remove_item_examines[OF 1] Cons.IH[OF 2] show ?case by auto
qed

section \<open>Path resolution when an entry is added or overwritten\<close>

lemma lookup_store:
  "lookup (store r x fs) p = (if p = [] then Some Dir else if p = r then Some x else lookup fs p)"
  by (simp add: lookup_def store_def update_conv')

lemma lookup_store_same: "r \<noteq> [] \<Longrightarrow> lookup (store r x fs) r = Some x"
  by (simp add: lookup_store)

lemma lookup_store_other: "p \<noteq> r \<Longrightarrow> lookup (store r x fs) p = lookup fs p"
  by (simp add: lookup_def store_def update_conv')

lemma lookup_None_nonempty: "lookup fs r = None \<Longrightarrow> r \<noteq> []"
  by (auto simp: lookup_def)

lemma resolve_store_new:
  "lookup fs r = None \<Longrightarrow> \<not> is_link x \<Longrightarrow> resolve n fs fl cur cs = Inr q \<Longrightarrow>
   resolve n (store r x fs) fl cur cs = Inr q"
proof (induction n fs fl cur cs rule: resolve.induct)
  case (1 n fs fl cur)
  then show ?case by simp
next
  case (2 n fs fl cur c cs)
  note none = \<open>lookup fs r = None\<close> and nl = \<open>\<not> is_link x\<close>
    and res = \<open>resolve n fs fl cur (c # cs) = Inr q\<close>
  show ?case
  proof (cases "c = ''.''")
    case True
    with res have "resolve n fs fl cur cs = Inr q" by simp
    from "2.IH"(1)[OF True none nl this] True show ?thesis by simp
  next
    case nd: False
    show ?thesis
  proof (cases "c = ''..''")
    case True
    with res nd have "resolve n fs fl (butlast cur) cs = Inr q" by simp
    from "2.IH"(2)[OF nd True none nl this] True nd show ?thesis by simp
  next
    case False
    note False = nd False
    show ?thesis
    proof (cases "lookup fs (cur @ [c])")
      case None
      with res False have cs: "cs = []" and q: "q = cur @ [c]" by (auto split: if_splits)
      show ?thesis
      proof (cases "cur @ [c] = r")
        case True
        have "lookup (store r x fs) r = Some x"
          by (rule lookup_store_same) (use True in auto)
        with True have lk: "lookup (store r x fs) (cur @ [c]) = Some x" by simp
        from nl cs q False lk show ?thesis by (cases x) simp_all
      next
        case ne: False
        with None cs q False show ?thesis by (simp add: lookup_store_other)
      qed
    next
      case (Some nd)
      with none have ne: "cur @ [c] \<noteq> r" by auto
      then have lk: "lookup (store r x fs) (cur @ [c]) = Some nd"
        using Some by (simp add: lookup_store_other)
      show ?thesis
      proof (cases nd)
        case (File c0)
        with res False Some lk show ?thesis by simp
      next
        case Dir
        with res False Some have "resolve n fs fl (cur @ [c]) cs = Inr q" by simp
        from "2.IH"(4)[OF False Some Dir none nl this] False lk Dir show ?thesis by simp
      next
        case (Link t)
        show ?thesis
        proof (cases "cs = [] \<and> \<not> fl")
          case True
          with res False Some Link lk show ?thesis by simp
        next
          case nf: False
          with res False Some Link obtain m where n: "n = Suc m" and t: "t \<noteq> []"
            and r': "resolve m fs fl (if is_absolute t then [] else cur) (comps t @ cs) = Inr q"
            by (cases n) (auto split: if_splits)
          from nf have nf2: "(cs = [] \<and> \<not> fl) = False" by simp
          from "2.IH"(3)[OF False Some Link nf n t none nl r'] False lk Link n t
          show ?thesis by (simp add: nf2)
        qed
      qed
    qed
  qed
  qed
qed

lemma resolve_store_over:
  "lookup fs r = Some (File c0) \<Longrightarrow>
   resolve n (store r (File ct) fs) fl cur cs = resolve n fs fl cur cs"
proof (induction n fs fl cur cs rule: resolve.induct)
  case (1 n fs fl cur)
  then show ?case by simp
next
  case (2 n fs fl cur c cs)
  note f = \<open>lookup fs r = Some (File c0)\<close>
  show ?case
  proof (cases "c = ''.''")
    case True
    from "2.IH"(1)[OF True f] True show ?thesis by simp
  next
    case nd: False
    show ?thesis
  proof (cases "c = ''..''")
    case True
    from "2.IH"(2)[OF nd True f] True nd show ?thesis by simp
  next
    case False
    note False = nd False
    show ?thesis
    proof (cases "cur @ [c] = r")
      case True
      have "lookup (store r (File ct) fs) r = Some (File ct)"
        by (rule lookup_store_same) (use True in auto)
      with True have lk: "lookup (store r (File ct) fs) (cur @ [c]) = Some (File ct)" by simp
      from True f have lf: "lookup fs (cur @ [c]) = Some (File c0)" by simp
      from False lk lf show ?thesis by simp
    next
      case ne: False
      then have lk: "lookup (store r (File ct) fs) (cur @ [c]) = lookup fs (cur @ [c])"
        by (simp add: lookup_store_other)
      show ?thesis
      proof (cases "lookup fs (cur @ [c])")
        case None
        with lk False show ?thesis by simp
      next
        case (Some nd)
        show ?thesis
        proof (cases nd)
          case (File c1)
          with Some lk False show ?thesis by simp
        next
          case Dir
          from "2.IH"(4)[OF False Some Dir f] Some lk False Dir show ?thesis by simp
        next
          case (Link t)
          show ?thesis
          proof (cases "cs = [] \<and> \<not> fl")
            case True
            with Some Link lk False show ?thesis by simp
          next
            case nf: False
            then have nf2: "(cs = [] \<and> \<not> fl) = False" by simp
            show ?thesis
            proof (cases n)
              case 0
              with Some Link lk False show ?thesis by (simp add: nf2)
            next
              case (Suc m)
              show ?thesis
              proof (cases "t = []")
                case True
                with Some Link lk False Suc show ?thesis by (simp add: nf2)
              next
                case tn: False
                from "2.IH"(3)[OF False Some Link nf Suc tn f] Some Link lk False Suc tn
                show ?thesis by (simp add: nf2)
              qed
            qed
          qed
        qed
      qed
    qed
  qed
  qed
qed









lemma fs_write_Inr:
  assumes "fs_write p c fs = Inr fs'"
  shows "\<exists>q. resolve max_links fs True [] p = Inr q \<and>
             (lookup fs q = None \<or> (\<exists>c0. lookup fs q = Some (File c0))) \<and>
             fs' = store q (File c) fs"
  using assms by (auto simp: fs_write_def split: sum.splits option.splits node.splits)




section \<open>What a build raises, and what an apply removes\<close>

lemma posix_normalize_nonempty: "posix_normalize s \<noteq> []"
  by (simp add: posix_normalize_def Let_def)

lemma posix_join_nonempty: "posix_join a b \<noteq> []"
  by (simp add: posix_join_def posix_normalize_nonempty)

lemma relativeFilePath_nonempty: "\<not> invalid_entry e \<Longrightarrow> relativeFilePath e \<noteq> []"
  by (auto simp: invalid_entry_def relativeFilePath_def truthy_def js_or_def posix_join_nonempty
        split: option.splits if_splits)

lemma createDiff_CompareNone:
  "createDiff (const_comparator (CompareOk None)) A B D =
     io_then (remove D) (io_then (ensureDir D) (io_throw EmptyResult))"
  by (simp add: createDiff_def compareDirectories_const io_bind_return)

lemma raises_materialize_nolstat:
  assumes "\<And>a c. \<not> lstat_op a \<Longrightarrow> P (IOError a c)"
  shows "raises P (materialize s t ty)"
  unfolding materialize_def prim_defs
  by (intro raises_then raises_bind raises_run raises_isSymlink)
     (simp_all add: raises_bind raises_query raises_run raises_return assms)

lemma raises_process_entry_valid:
  assumes "\<not> invalid_entry e" and "\<And>a c. \<not> lstat_op a \<Longrightarrow> P (IOError a c)"
  shows "raises P (process_entry B D e removed)"
  unfolding process_entry_def Let_def using assms(1) relativeFilePath_nonempty[OF assms(1)]
  by (cases "state e")
     (simp_all add: raises_return raises_then raises_materialize_nolstat assms(2))

lemma raises_process_entries_first:
  "raises (\<lambda>err. case err of
              IOError a c \<Rightarrow> \<not> lstat_op a
            | InvalidEntry x \<Rightarrow> find invalid_entry ds = Some x
            | _ \<Rightarrow> False)
     (process_entries B D ds removed)"
proof (induction ds arbitrary: removed)
  case Nil
  show ?case by (simp add: process_entries_Nil raises_return)
next
  case (Cons e es)
  let ?P = "\<lambda>ds err. case err of
              IOError a c \<Rightarrow> \<not> lstat_op a
            | InvalidEntry x \<Rightarrow> find invalid_entry ds = Some x
            | _ \<Rightarrow> False"
  show ?case
  proof (cases "invalid_entry e")
    case True
    then have "process_entry B D e removed = io_throw (InvalidEntry e)"
      by (simp add: process_entry_def)
    then have "process_entries B D (e # es) removed = io_throw (InvalidEntry e)"
      by (simp add: process_entries_Cons io_bind_throw)
    with True show ?thesis by (simp add: raises_throw)
  next
    case False
    have 1: "raises (?P (e # es)) (process_entry B D e removed)"
      by (rule raises_process_entry_valid[OF False]) simp
    have 2: "\<And>r. raises (?P (e # es)) (process_entries B D es r)"
    proof -
      fix r
      show "raises (?P (e # es)) (process_entries B D es r)"
        by (rule raises_mono[OF Cons.IH[of r]]) (use False in \<open>auto split: error.splits\<close>)
    qed
    show ?thesis unfolding process_entries_Cons by (rule raises_bind[OF 1 2])
  qed
qed

lemma raises_createDiff_build_error:
  "raises (build_error r) (createDiff (const_comparator r) A B D)"
proof (cases r)
  case (CompareFails m)
  show ?thesis unfolding CompareFails createDiff_CompareFails prim_defs
    by (intro raises_then raises_run raises_throw) (simp_all add: build_error_def)
next
  case (CompareOk res)
  show ?thesis
  proof (cases res)
    case None
    show ?thesis unfolding CompareOk None createDiff_CompareNone prim_defs
      by (intro raises_then raises_run raises_throw) (simp_all add: build_error_def)
  next
    case (Some ds)
    have pe: "\<And>removed. raises (build_error (CompareOk (Some ds))) (process_entries B D ds removed)"
    proof -
      fix removed
      show "raises (build_error (CompareOk (Some ds))) (process_entries B D ds removed)"
        by (rule raises_mono[OF raises_process_entries_first])
           (auto simp: build_error_def split: error.splits)
    qed
    show ?thesis unfolding CompareOk Some createDiff_CompareOk prim_defs
      by (intro raises_then raises_bind raises_run pe)
         (simp_all add: raises_run raises_return build_error_def)
  qed
qed

lemma always_fails_createDiff_none:
  "always_fails (createDiff (const_comparator (CompareOk None)) A B D)"
  unfolding createDiff_CompareNone
  by (intro always_fails_then always_fails_throw)

lemma createDiff_settled:
  assumes "trace w = []" and "createDiff cmp A B D w = (res, w')"
  shows "settled (trace w') res"
proof -
  from assms(1) have "quiet (trace w)" by (simp add: quiet_def)
  from propagatesD[OF propagates_createDiff assms(2) this] assms(1) show ?thesis by auto
qed

lemma settled_failure_event:
  assumes "settled t res"
  shows "(\<exists>a c. (a, Failed c) \<in> set t \<and> \<not> lstat_op a) \<longleftrightarrow> (\<exists>a c. res = Inl (IOError a c) \<and> \<not> lstat_op a)"
proof -
  from assms consider
      (q) "quiet t" "\<forall>a c. res \<noteq> Inl (IOError a c)"
    | (f) a c pre where "res = Inl (IOError a c)" "t = pre @ [(a, Failed c)]" "quiet pre"
    unfolding settled_def by blast
  then show ?thesis
  proof cases
    case q
    then show ?thesis by (auto simp: quiet_def list_all_iff)
  next
    case f
    from f(3) have "\<And>b d. (b, Failed d) \<in> set pre \<Longrightarrow> lstat_op b"
      by (auto simp: quiet_def list_all_iff)
    with f(1,2) show ?thesis by auto
  qed
qed

lemma fs_write_read:
  assumes "fs_write p c fs = Inr fs'"
  shows "fs_stat fs' p = Inr (File c)"
proof -
  from fs_write_Inr[OF assms] obtain q where q: "resolve max_links fs True [] p = Inr q"
    and k: "lookup fs q = None \<or> (\<exists>c0. lookup fs q = Some (File c0))"
    and fs': "fs' = store q (File c) fs" by blast
  from k have qne: "q \<noteq> []" by (auto simp: lookup_def)
  then have lq: "lookup fs' q = Some (File c)" unfolding fs' by (rule lookup_store_same)
  from k show ?thesis
  proof
    assume n: "lookup fs q = None"
    have nl: "\<not> is_link (File c)" by simp
    from resolve_store_new[OF n nl q] lq show ?thesis unfolding fs' by (simp add: fs_stat_def)
  next
    assume "\<exists>c0. lookup fs q = Some (File c0)"
    then obtain c0 where f: "lookup fs q = Some (File c0)" by blast
    from resolve_store_over[OF f, of max_links c] q lq
    show ?thesis unfolding fs' by (simp add: fs_stat_def)
  qed
qed

lemma replaced_append: "replaced s \<Longrightarrow> replaced t \<Longrightarrow> replaced (s @ t)"
proof (induction s rule: replaced.induct)
  case 1
  then show ?case by simp
next
  case (2 a r)
  then show ?case by (cases t) auto
next
  case (3 a r b r' rest)
  then show ?case by (auto split: if_splits)
qed

lemma tidyI:
  assumes "\<And>w r w'. m w = (r, w') \<Longrightarrow> \<exists>t. trace w' = trace w @ t \<and> replaced t"
  shows "tidy m"
  using assms unfolding tidy_def by blast

lemma tidyD:
  assumes "tidy m" and "m w = (r, w')"
  shows "\<exists>t. trace w' = trace w @ t \<and> replaced t"
  using assms unfolding tidy_def by blast

lemma tidy_return: "tidy (io_return x)"
  by (rule tidyI) (simp add: io_return_def)

lemma tidy_throw: "tidy (io_throw e)"
  by (rule tidyI) (simp add: io_throw_def)

lemma tidy_bind:
  assumes "tidy m" and "\<And>x. tidy (f x)"
  shows "tidy (io_bind m f)"
proof (rule tidyI)
  fix w r w'
  assume run: "io_bind m f w = (r, w')"
  obtain r1 w1 where m: "m w = (r1, w1)" by (cases "m w")
  from tidyD[OF assms(1) m] obtain t1 where t1: "trace w1 = trace w @ t1" "replaced t1" by blast
  show "\<exists>t. trace w' = trace w @ t \<and> replaced t"
  proof (cases r1)
    case (Inl e)
    with run m have "w' = w1" by (simp add: io_bind_def)
    with t1 show ?thesis by blast
  next
    case (Inr x)
    with run m have "f x w1 = (r, w')" by (simp add: io_bind_def)
    from tidyD[OF assms(2) this] obtain t2 where "trace w' = trace w1 @ t2" "replaced t2" by blast
    with t1 have "trace w' = trace w @ (t1 @ t2) \<and> replaced (t1 @ t2)"
      by (simp add: replaced_append)
    then show ?thesis by blast
  qed
qed

lemma tidy_then: "tidy m \<Longrightarrow> tidy k \<Longrightarrow> tidy (io_then m k)"
  by (simp add: io_then_def tidy_bind)

lemma tidy_run: "remove_path a = None \<Longrightarrow> tidy (run a f)"
  by (rule tidyI) (auto simp: run_def trace_log_event split: sum.splits)

lemma tidy_query: "remove_path a = None \<Longrightarrow> tidy (query a f)"
  by (rule tidyI) (auto simp: query_def trace_log_event split: sum.splits)

lemma tidy_pathExists: "tidy (pathExists p)"
  by (rule tidyI) (auto simp: pathExists_def trace_log_event)

lemma tidy_replace: "tidy (io_then (remove p) (symlink t p))"
proof (rule tidyI)
  fix w r w'
  assume run: "io_then (remove p) (symlink t p) w = (r, w')"
  obtain r1 w1 where m: "remove p w = (r1, w1)" by (cases "remove p w")
  show "\<exists>t. trace w' = trace w @ t \<and> replaced t"
  proof (cases "fs_remove p (files w)")
    case (Inl e)
    with run have "trace w' = trace w @ [(OpRemove p, Failed e)]"
      by (auto simp: io_then_def io_bind_def remove_def run_def trace_log_event)
    then show ?thesis by simp
  next
    case (Inr fs1)
    let ?w1 = "log_event (OpRemove p) Done (w\<lparr>files := fs1\<rparr>)"
    from Inr run have s: "symlink t p ?w1 = (r, w')"
      by (simp add: io_then_def io_bind_def remove_def run_def)
    then obtain o' where "trace w' = trace ?w1 @ [(OpSymlink t p, o')]"
      by (auto simp: symlink_def run_def trace_log_event split: sum.splits)
    then have "trace w' = trace w @ [(OpRemove p, Done), (OpSymlink t p, o')]"
      by (simp add: trace_log_event)
    then show ?thesis by simp
  qed
qed

lemma tidy_restore_symlink: "tidy (restore_symlink s d)"
proof -
  have "\<And>t ex. tidy (io_then (if ex then remove d else io_return ()) (symlink t d))"
  proof -
    fix t ex
    show "tidy (io_then (if ex then remove d else io_return ()) (symlink t d))"
    proof (cases ex)
      case True
      then show ?thesis by (simp add: tidy_replace)
    next
      case False
      then show ?thesis by (simp add: io_then_def io_bind_return symlink_def tidy_run)
    qed
  qed
  then have unit: "\<And>t. tidy (io_bind (pathExists d) (\<lambda>ex.
            io_then (if ex then remove d else io_return ()) (symlink t d)))"
    by (intro tidy_bind tidy_pathExists)
  have "\<And>t. tidy (io_then (ensureDir (dirname d)) (io_bind (pathExists d) (\<lambda>ex.
            io_then (if ex then remove d else io_return ()) (symlink t d))))"
    by (rule tidy_then[OF _ unit]) (simp add: ensureDir_def tidy_run)
  then show ?thesis
    unfolding restore_symlink_def
    by (intro tidy_bind) (simp_all add: readlink_def tidy_query)
qed

lemma tidy_restore_file: "tidy (restore_file s d)"
  unfolding restore_file_def prim_defs
  by (intro tidy_then tidy_run) simp_all

lemma tidy_visit:
  assumes "\<And>cur. tidy (walk n T D cur)"
  shows "tidy (visit n T D cur item)"
  unfolding visit_def Let_def lstat_def
  apply (rule tidy_bind)
   apply (rule tidy_query, simp)
  apply (simp split: node.split add: tidy_restore_symlink tidy_restore_file)
  apply (intro allI impI tidy_then assms)
  apply (simp add: ensureDir_def tidy_run)
  done

lemma tidy_walk_items:
  assumes "\<And>cur. tidy (walk n T D cur)"
  shows "tidy (walk_items n T D cur items)"
proof (induction items)
  case Nil
  show ?case by (simp add: walk_items_Nil tidy_return)
next
  case (Cons item items)
  show ?case unfolding walk_items_Cons
    by (rule tidy_then[OF tidy_visit[OF assms] Cons])
qed

lemma tidy_walk: "tidy (walk n T D cur)"
proof (induction n arbitrary: cur)
  case 0
  show ?case by (rule tidyI) simp
next
  case (Suc n)
  show ?case unfolding walk_Suc readdir_def
    by (rule tidy_bind) (simp_all add: tidy_query tidy_walk_items[OF Suc])
qed

lemma build_entries_createDiff:
  "createDiff (const_comparator (CompareOk (Some ds))) A B D =
     io_bind (build_entries B D ds) (\<lambda>removedItems.
        if length removedItems > 0
        then writeJson (path_join D manifest_name) removedItems
        else io_return ())"
  unfolding build_entries_def by (rule createDiff_CompareOk_assoc)






lemma keeps_linksI:
  assumes "\<And>w r w'. m w = (r, w') \<Longrightarrow>
     \<exists>t. trace w' = trace w @ t \<and>
         (\<not> list_ex removed_ev t \<longrightarrow>
            (\<forall>p l. fs_lstat (files w) p = Inr (Link l) \<longrightarrow> fs_lstat (files w') p = Inr (Link l)))"
  shows "keeps_links m"
  using assms unfolding keeps_links_def by blast



lemma keeps_links_throw: "keeps_links (io_throw e)"
  by (rule keeps_linksI) (simp add: io_throw_def)






















section \<open>The claims\<close>

text \<open>
  C1. Round trip: after \<open>createDiff(A, B, D)\<close> and \<open>restoreDiff(A, D)\<close> the tree A equals
  the tree B. On the scenario of the README both calls succeed, and A ends with a copy
  of the manifest file, which B does not have: the two trees differ.
\<close>

theorem roundtrip_leaves_manifest_in_target:
  "fst (roundtrip (const_comparator (CompareOk (Some readme_diffSet))) 2 [''A''] [''B''] [''D'']
          readme_world) = Inr () \<and>
   fs_lstat (files (snd (roundtrip (const_comparator (CompareOk (Some readme_diffSet))) 2
          [''A''] [''B''] [''D''] readme_world))) [''A'', manifest_name]
     = Inr (File (Json (Some [''/file2.txt'']))) \<and>
   fs_lstat (files (snd (roundtrip (const_comparator (CompareOk (Some readme_diffSet))) 2
          [''A''] [''B''] [''D''] readme_world))) [''B'', manifest_name]
     = Inl ENOENT \<and>
   tree_of (files (snd (roundtrip (const_comparator (CompareOk (Some readme_diffSet))) 2
          [''A''] [''B''] [''D''] readme_world))) [''A'']
     \<noteq> tree_of (files (snd (roundtrip (const_comparator (CompareOk (Some readme_diffSet))) 2
          [''A''] [''B''] [''D''] readme_world))) [''B'']"
  by code_simp

text \<open>
  C2. \<open>restoreDiff\<close> never copies the manifest file into the target. The replay has no
  test for the reserved name (the closure \<open>filter_src\<close> is not called by \<open>walk\<close>), so a
  diff folder holding only a manifest leaves a copy of it in the target.
\<close>

theorem restoreDiff_copies_manifest:
  "fst (restoreDiff 2 [''T''] [''D''] (default_metadataPath [''D'']) manifest_only_world) = Inr () \<and>
   fs_lstat (files (snd (restoreDiff 2 [''T''] [''D''] (default_metadataPath [''D''])
                           manifest_only_world))) [''T'', manifest_name]
     = Inr (File (Json (Some [''/x''])))"
  by code_simp

text \<open>
  C3. Applying a diff folder twice gives the state of applying it once, and succeeds.
  With a dangling link in the diff folder the first run creates the link in the target;
  in the second run \<open>pathExists\<close> follows that link, finds nothing, the link is not
  removed and \<open>symlink\<close> fails with \<open>EEXIST\<close>.
\<close>

theorem second_restore_fails_on_dangling_link:
  "fst (restoreDiff 2 [''T''] [''D''] (default_metadataPath [''D'']) dangling_diff_world) = Inr () \<and>
   fst (restore_twice 2 [''T''] [''D''] dangling_diff_world)
     = Inl (IOError (OpSymlink ''gone'' [''T'', ''l'']) EEXIST)"
  by code_simp

text \<open>
  C4. A listed path that is a dangling link counts as existing and is removed. The
  removal loop asks \<open>pathExists\<close>, which follows the link: the run succeeds, makes no
  \<open>remove\<close> call, and the link is still in the target.
\<close>

theorem dangling_link_is_not_removed:
  "fst (restoreDiff 2 [''T''] [''D''] (default_metadataPath [''D'']) dangling_target_world) = Inr () \<and>
   fs_lstat (files (snd (restoreDiff 2 [''T''] [''D''] (default_metadataPath [''D''])
                           dangling_target_world))) [''T'', ''old'']
     = Inr (Link ''gone'') \<and>
   (OpRemove [''T'', ''old''], Done) \<notin>
     set (trace (snd (restoreDiff 2 [''T''] [''D''] (default_metadataPath [''D''])
                        dangling_target_world)))"
  by code_simp

text \<open>
  C5. A modified link of B with target \<open>T\<close> ends as a link with target \<open>T\<close> in the target
  tree. When the target tree has a dangling link at that path, \<open>createDiff\<close> puts the new
  link into the diff folder, and \<open>restoreDiff\<close> fails with \<open>EEXIST\<close>, the old target string
  still in place.
\<close>

theorem modified_link_is_not_restored:
  "fst (createDiff (const_comparator (CompareOk (Some relinked_diffSet))) [''A''] [''B''] [''D'']
          relinked_world) = Inr () \<and>
   fs_readlink (files (snd (createDiff (const_comparator (CompareOk (Some relinked_diffSet)))
          [''A''] [''B''] [''D''] relinked_world))) [''D'', ''l''] = Inr ''gone2'' \<and>
   fst (roundtrip (const_comparator (CompareOk (Some relinked_diffSet))) 2 [''A''] [''B''] [''D'']
          relinked_world) = Inl (IOError (OpSymlink ''gone2'' [''A'', ''l'']) EEXIST) \<and>
   fs_readlink (files (snd (roundtrip (const_comparator (CompareOk (Some relinked_diffSet))) 2
          [''A''] [''B''] [''D''] relinked_world))) [''A'', ''l''] = Inr ''gone1''"
  by code_simp

text \<open>
  C6. \<open>createDiff\<close> writes a manifest at the root of the diff folder exactly when the
  removal list is not empty, and \<open>restoreDiff\<close> on a diff folder without a manifest deletes
  nothing. Neither half holds. When B holds an added file with the reserved name, \<open>createDiff\<close>
  copies it to the root of the diff folder like any other file, with nothing to remove,
  and \<open>restoreDiff\<close> then reads it as the manifest and deletes what it lists. And with no
  manifest at all the replay still removes the entry that a link of the diff folder
  replaces.
\<close>

theorem manifest_named_file_without_removals:
  "removal_list manifest_in_B_diffSet = [] \<and>
   fst (createDiff (const_comparator (CompareOk (Some manifest_in_B_diffSet)))
          [''A''] [''B''] [''D''] manifest_in_B_world) = Inr () \<and>
   fs_readJson (files (snd (createDiff (const_comparator (CompareOk (Some manifest_in_B_diffSet)))
          [''A''] [''B''] [''D''] manifest_in_B_world))) [''D'', manifest_name]
     = Inr (Some [''/keep'']) \<and>
   fst (roundtrip (const_comparator (CompareOk (Some manifest_in_B_diffSet))) 2
          [''A''] [''B''] [''D''] manifest_in_B_world) = Inr () \<and>
   fs_lstat (files manifest_in_B_world) [''A'', ''keep''] = Inr (File (Bytes ''k'')) \<and>
   fs_lstat (files (snd (roundtrip (const_comparator (CompareOk (Some manifest_in_B_diffSet))) 2
          [''A''] [''B''] [''D''] manifest_in_B_world))) [''A'', ''keep''] = Inl ENOENT \<and>
   \<not> fs_pathExists (files link_over_file_world) (default_metadataPath [''D'']) \<and>
   fst (restoreDiff 2 [''T''] [''D''] (default_metadataPath [''D'']) link_over_file_world)
     = Inr () \<and>
   (OpRemove [''T'', ''l''], Done) \<in>
     set (trace (snd (restoreDiff 2 [''T''] [''D''] (default_metadataPath [''D''])
                        link_over_file_world))) \<and>
   fs_lstat (files link_over_file_world) [''T'', ''l''] = Inr (File (Bytes ''old'')) \<and>
   fs_lstat (files (snd (restoreDiff 2 [''T''] [''D''] (default_metadataPath [''D''])
                           link_over_file_world))) [''T'', ''l''] = Inr (Link ''x'')"
  by code_simp

text \<open>
  C6, amended. After a successful \<open>createDiff\<close>: when the removal list is not empty, the
  manifest path at the root of the diff folder reads as \<open>{removed: [...]}\<close> with that
  list; when it is empty, the filesystem is the one that clearing the diff folder and
  processing the entries has left; so, when the entries have left nothing at the manifest
  path, a manifest exists there exactly when the removal list is not empty. And
  \<open>restoreDiff\<close> with nothing at its manifest path is the replay alone, started on the
  filesystem as it was after the one existence check; every successful \<open>remove\<close> of that
  run is followed at once by the \<open>symlink\<close> call at the same path.
\<close>

theorem manifest_follows_removals:
  "(createDiff (const_comparator (CompareOk (Some ds))) A B D w = (Inr (), w') \<longrightarrow>
      (removal_list ds \<noteq> [] \<longrightarrow>
         fs_readJson (files w') (path_join D manifest_name) = Inr (Some (removal_list ds))) \<and>
      (removal_list ds = [] \<longrightarrow> files w' = files (snd (build_entries B D ds w))) \<and>
      (\<not> fs_pathExists (files (snd (build_entries B D ds w))) (path_join D manifest_name) \<longrightarrow>
         (fs_pathExists (files w') (path_join D manifest_name) \<longleftrightarrow> removal_list ds \<noteq> []))) \<and>
   (\<not> fs_pathExists (files v) m \<longrightarrow> restoreDiff fuel T D m v = (r, v') \<longrightarrow>
      walk fuel T D D (log_event (OpPathExists m) Done v) = (r, v') \<and>
      (\<exists>t. trace v' = trace v @ (OpPathExists m, Done) # t \<and> replaced t))"
proof (intro conjI impI)
  assume nm: "\<not> fs_pathExists (files v) m" and run: "restoreDiff fuel T D m v = (r, v')"
  from restoreDiff_without_manifest[OF nm, of fuel T D] run
  show wk: "walk fuel T D D (log_event (OpPathExists m) Done v) = (r, v')" by simp
  from tidyD[OF tidy_walk wk] obtain t
    where "trace v' = trace (log_event (OpPathExists m) Done v) @ t" "replaced t" by blast
  then have "trace v' = trace v @ (OpPathExists m, Done) # t \<and> replaced t"
    by (simp add: trace_log_event)
  then show "\<exists>t. trace v' = trace v @ (OpPathExists m, Done) # t \<and> replaced t" by blast
next
  assume run: "createDiff (const_comparator (CompareOk (Some ds))) A B D w = (Inr (), w')"
  let ?mp = "path_join D manifest_name"
  from run obtain removed w3 where
    build: "build_entries B D ds w = (Inr removed, w3)"
    and fin: "(if length removed > 0 then writeJson ?mp removed else io_return ()) w3 = (Inr (), w')"
    unfolding build_entries_createDiff by (blast dest: io_bind_InrD)
  from build obtain w1 w2 where "process_entries B D ds [] w2 = (Inr removed, w3)"
    unfolding build_entries_def by (blast dest: io_then_InrD)
  from process_entries_removed[OF this] have removed: "removed = removal_list ds" by simp
  from build have w3: "snd (build_entries B D ds w) = w3" by simp
  have empty: "removal_list ds = [] \<Longrightarrow> files w' = files w3"
    using fin removed by (simp add: io_return_def)
  have nonempty: "removal_list ds \<noteq> [] \<Longrightarrow> fs_stat (files w') ?mp = Inr (File (Json (Some (removal_list ds))))"
  proof -
    assume ne: "removal_list ds \<noteq> []"
    with fin removed have "run (OpWriteJson ?mp) (fs_writeJson ?mp removed) w3 = (Inr (), w')"
      by (simp add: writeJson_def)
    then have "fs_writeJson ?mp removed (files w3) = Inr (files w')"
      by (auto simp: run_def log_event_def split: sum.splits)
    then have "fs_write ?mp (Json (Some removed)) (files w3) = Inr (files w')"
      by (simp add: fs_writeJson_def)
    from fs_write_read[OF this] removed show ?thesis by simp
  qed
  show "removal_list ds \<noteq> [] \<Longrightarrow>
      fs_readJson (files w') ?mp = Inr (Some (removal_list ds))"
    using nonempty by (simp add: fs_readJson_def)
  show "removal_list ds = [] \<Longrightarrow> files w' = files (snd (build_entries B D ds w))"
    using empty w3 by simp
  show "\<not> fs_pathExists (files (snd (build_entries B D ds w))) ?mp \<Longrightarrow>
      fs_pathExists (files w') ?mp \<longleftrightarrow> removal_list ds \<noteq> []"
  proof (cases "removal_list ds = []")
    case True
    assume "\<not> fs_pathExists (files (snd (build_entries B D ds w))) ?mp"
    with empty[OF True] w3 True show ?thesis by simp
  next
    case False
    from nonempty[OF False] False show ?thesis by (simp add: fs_pathExists_def)
  qed
qed

theorem manifest_follows_removals_witness:
  "fs_readJson (files (snd (createDiff (const_comparator (CompareOk (Some readme_diffSet)))
                              [''A''] [''B''] [''D''] readme_world)))
       (path_join [''D''] manifest_name) = Inr (Some [''/file2.txt'']) \<and>
   fs_pathExists (files (snd (createDiff (const_comparator (CompareOk (Some readme_diffSet)))
                              [''A''] [''B''] [''D''] readme_world)))
       (path_join [''D''] manifest_name) \<and>
   \<not> fs_pathExists (files (snd (createDiff (const_comparator (CompareOk (Some relinked_diffSet)))
                              [''A''] [''B''] [''D''] relinked_world)))
       (path_join [''D''] manifest_name) \<and>
   walk 2 [''T''] [''D''] [''D'']
       (log_event (OpPathExists (default_metadataPath [''D''])) Done link_over_file_world)
     = (fst (restoreDiff 2 [''T''] [''D''] (default_metadataPath [''D'']) link_over_file_world),
        snd (restoreDiff 2 [''T''] [''D''] (default_metadataPath [''D'']) link_over_file_world)) \<and>
   (\<exists>t. trace (snd (restoreDiff 2 [''T''] [''D''] (default_metadataPath [''D''])
                      link_over_file_world))
          = trace link_over_file_world @ (OpPathExists (default_metadataPath [''D'']), Done) # t \<and>
        replaced t)"
proof -
  let ?mp = "path_join [''D''] manifest_name"
  let ?run1 = "createDiff (const_comparator (CompareOk (Some readme_diffSet)))
                 [''A''] [''B''] [''D''] readme_world"
  let ?run2 = "createDiff (const_comparator (CompareOk (Some relinked_diffSet)))
                 [''A''] [''B''] [''D''] relinked_world"
  let ?run3 = "restoreDiff 2 [''T''] [''D''] (default_metadataPath [''D'']) link_over_file_world"
  have "fst ?run1 = Inr ()" by code_simp
  then have r1: "?run1 = (Inr (), snd ?run1)" by (simp add: prod_eq_iff)
  have "fst ?run2 = Inr ()" by code_simp
  then have r2: "?run2 = (Inr (), snd ?run2)" by (simp add: prod_eq_iff)
  have r3: "?run3 = (fst ?run3, snd ?run3)" by simp
  have l1: "removal_list readme_diffSet = [''/file2.txt'']" by code_simp
  have l2: "removal_list relinked_diffSet = []" by code_simp
  have e1: "\<not> fs_pathExists (files (snd (build_entries [''B''] [''D''] readme_diffSet readme_world))) ?mp"
    by code_simp
  have e2: "\<not> fs_pathExists (files (snd (build_entries [''B''] [''D''] relinked_diffSet relinked_world))) ?mp"
    by code_simp
  have p: "\<not> fs_pathExists (files link_over_file_world) (default_metadataPath [''D''])"
    by code_simp
  from manifest_follows_removals
         [where w = readme_world and ds = readme_diffSet and A = "[''A'']" and B = "[''B'']"
            and D = "[''D'']" and w' = "snd ?run1" and v = link_over_file_world
            and m = "default_metadataPath [''D'']" and fuel = 2 and T = "[''T'']"
            and r = "fst ?run3" and v' = "snd ?run3"]
       r1 l1 e1 p r3
  have a: "fs_readJson (files (snd ?run1)) ?mp = Inr (Some [''/file2.txt''])"
    and b: "fs_pathExists (files (snd ?run1)) ?mp"
    and c: "walk 2 [''T''] [''D''] [''D'']
              (log_event (OpPathExists (default_metadataPath [''D''])) Done link_over_file_world)
            = (fst ?run3, snd ?run3)"
    and d: "\<exists>t. trace (snd ?run3)
              = trace link_over_file_world @ (OpPathExists (default_metadataPath [''D'']), Done) # t \<and>
              replaced t"
    by simp_all
  from manifest_follows_removals
         [where w = relinked_world and ds = relinked_diffSet and A = "[''A'']" and B = "[''B'']"
            and D = "[''D'']" and w' = "snd ?run2"]
       r2 l2 e2
  have e: "\<not> fs_pathExists (files (snd ?run2)) ?mp" by simp
  from a b c d e show ?thesis by blast
qed

text \<open>
  C7. The build fails exactly when the comparator fails or some entry is invalid, and
  the error identifies the offending entry. It fails in other cases too: when the
  comparator's result has no \<open>diffSet\<close>, and when a filesystem operation fails, as the
  clearing of a diff folder whose parent is a regular file does.
\<close>

theorem build_fails_without_bad_comparison:
  "fst (createDiff (const_comparator (CompareOk None)) [''A''] [''B''] [''D'']
          vanished_world) = Inl EmptyResult \<and>
   fst (createDiff (const_comparator (CompareOk (Some []))) [''A''] [''B''] [''f'', ''D'']
          blocked_world) = Inl (IOError (OpRemove [''f'', ''D'']) ENOTDIR)"
  by code_simp

text \<open>
  C7, amended. The build fails exactly when the comparator fails, or its result has no
  \<open>diffSet\<close>, or some entry of the \<open>diffSet\<close> is invalid, or a filesystem operation other
  than an \<open>lstat\<close> fails. The comparison error is raised only when the comparator has
  failed, and carries its message; an invalid-entry error carries the first invalid entry
  of the \<open>diffSet\<close>.
\<close>

theorem build_fails_exactly_when:
  assumes "trace w = []"
    and "createDiff (const_comparator r) A B D w = (res, w')"
  shows "(isl res \<longleftrightarrow>
            (\<exists>m. r = CompareFails m) \<or> r = CompareOk None \<or>
            (\<exists>ds. r = CompareOk (Some ds) \<and> list_ex invalid_entry ds) \<or>
            (\<exists>a c. (a, Failed c) \<in> set (trace w') \<and> \<not> lstat_op a)) \<and>
         (\<forall>m. res = Inl (ComparisonError m) \<longrightarrow> r = CompareFails m) \<and>
         (\<forall>x. res = Inl (InvalidEntry x) \<longrightarrow>
            (\<exists>ds. r = CompareOk (Some ds) \<and> find invalid_entry ds = Some x \<and>
                  x \<in> set ds \<and> invalid_entry x))"
proof -
  have be: "\<And>e. res = Inl e \<Longrightarrow> build_error r e"
    using raises_createDiff_build_error[of r A B D] assms(2) unfolding raises_def by blast
  have ev: "(\<exists>a c. (a, Failed c) \<in> set (trace w') \<and> \<not> lstat_op a)
              \<longleftrightarrow> (\<exists>a c. res = Inl (IOError a c) \<and> \<not> lstat_op a)"
    by (rule settled_failure_event[OF createDiff_settled[OF assms]])
  have fwd: "isl res \<Longrightarrow> (\<exists>m. r = CompareFails m) \<or> r = CompareOk None \<or>
            (\<exists>ds. r = CompareOk (Some ds) \<and> list_ex invalid_entry ds) \<or>
            (\<exists>a c. (a, Failed c) \<in> set (trace w') \<and> \<not> lstat_op a)"
  proof -
    assume "isl res"
    then obtain e where e: "res = Inl e" by (cases res) auto
    from be[OF e] show ?thesis
    proof (cases e)
      case (IOError a c)
      with be[OF e] e ev show ?thesis by (auto simp: build_error_def)
    next
      case (InvalidEntry x)
      with be[OF e] obtain ds where "r = CompareOk (Some ds)" "find invalid_entry ds = Some x"
        by (auto simp: build_error_def split: compare_result.splits option.splits)
      then show ?thesis by (auto simp: find_Some_iff list_ex_iff)
    qed (auto simp: build_error_def)
  qed
  have bwd1: "\<And>m. r = CompareFails m \<Longrightarrow> isl res"
    using always_fails_createDiff_fails assms(2) unfolding always_fails_def
    by (metis fst_conv)
  have bwd2: "r = CompareOk None \<Longrightarrow> isl res"
    using always_fails_createDiff_none assms(2) unfolding always_fails_def
    by (metis fst_conv)
  have bwd3: "\<And>ds. r = CompareOk (Some ds) \<Longrightarrow> list_ex invalid_entry ds \<Longrightarrow> isl res"
    using always_fails_createDiff_invalid assms(2) unfolding always_fails_def
    by (metis fst_conv)
  have bwd4: "(\<exists>a c. (a, Failed c) \<in> set (trace w') \<and> \<not> lstat_op a) \<Longrightarrow> isl res"
    using ev by auto
  have c2: "\<forall>m. res = Inl (ComparisonError m) \<longrightarrow> r = CompareFails m"
    using be by (auto simp: build_error_def)
  have c3: "\<forall>x. res = Inl (InvalidEntry x) \<longrightarrow>
            (\<exists>ds. r = CompareOk (Some ds) \<and> find invalid_entry ds = Some x \<and>
                  x \<in> set ds \<and> invalid_entry x)"
  proof (intro allI impI)
    fix x assume "res = Inl (InvalidEntry x)"
    from be[OF this] obtain ds where "r = CompareOk (Some ds)" "find invalid_entry ds = Some x"
      by (auto simp: build_error_def split: compare_result.splits option.splits)
    then show "\<exists>ds. r = CompareOk (Some ds) \<and> find invalid_entry ds = Some x \<and>
                  x \<in> set ds \<and> invalid_entry x"
      by (auto simp: find_Some_iff)
  qed
  from fwd bwd1 bwd2 bwd3 bwd4 c2 c3 show ?thesis by blast
qed

theorem build_fails_exactly_when_witness:
  "isl (fst (createDiff (const_comparator (CompareOk (Some nameless_diffSet))) [''A''] [''B'']
               [''D''] vanished_world)) \<and>
   find invalid_entry nameless_diffSet = Some nameless_entry \<and>
   nameless_entry \<in> set nameless_diffSet \<and> invalid_entry nameless_entry"
proof -
  let ?run = "createDiff (const_comparator (CompareOk (Some nameless_diffSet))) [''A''] [''B'']
               [''D''] vanished_world"
  have h1: "trace vanished_world = []" by (simp add: vanished_world_def)
  have h2: "?run = (fst ?run, snd ?run)" by simp
  have h3: "fst ?run = Inl (InvalidEntry nameless_entry)" by code_simp
  have h4: "list_ex invalid_entry nameless_diffSet" by code_simp
  from build_fails_exactly_when[OF h1 h2] h3 h4 show ?thesis by auto
qed

text \<open>
  C8. Every failure of a filesystem operation during a build aborts the build and reaches
  the caller; no code path catches one and goes on with a substituted value. \<open>isSymlink\<close>
  does catch the failure of \<open>lstat\<close> and answers \<open>false\<close>: here the first entry names a
  path that is not in B, its \<open>lstat\<close> fails, and the build goes on to copy the second
  entry and succeeds.
\<close>

theorem build_continues_after_failed_lstat:
  "fst (createDiff (const_comparator (CompareOk (Some vanished_diffSet))) [''A''] [''B''] [''D'']
          vanished_world) = Inr () \<and>
   trace (snd (createDiff (const_comparator (CompareOk (Some vanished_diffSet))) [''A''] [''B'']
          [''D''] vanished_world)) =
     [(OpRemove [''D''], Done), (OpEnsureDir [''D''], Done),
      (OpEnsureDir [''D''], Done), (OpLstat [''B'', ''g''], Failed ENOENT),
      (OpEnsureDir [''D''], Done), (OpLstat [''B'', ''f''], Done),
      (OpCopy [''B'', ''f''] [''D'', ''f''], Done)]"
  by code_simp

text \<open>
  C8, amended. Every failure of a filesystem operation other than the \<open>lstat\<close> of
  \<open>isSymlink\<close> aborts the build: it is the last event of the run, every failure before
  it is a failed \<open>lstat\<close>, and the build raises that operation's error.
\<close>

theorem build_failure_propagates:
  assumes "trace w = []"
    and "createDiff cmp A B D w = (r, w')"
    and "(a, Failed c) \<in> set (trace w')"
    and "\<not> lstat_op a"
  shows "r = Inl (IOError a c) \<and> (\<exists>pre. trace w' = pre @ [(a, Failed c)] \<and> quiet pre)"
proof -
  from assms(1) have "quiet (trace w)" by (simp add: quiet_def)
  from propagatesD[OF propagates_createDiff assms(2) this] assms(1)
  have s: "settled (trace w') r" by auto
  from s consider
      (q) "quiet (trace w')"
    | (f) a' c' pre where "r = Inl (IOError a' c')" "trace w' = pre @ [(a', Failed c')]" "quiet pre"
    unfolding settled_def by blast
  then show ?thesis
  proof cases
    case q
    with assms(3,4) show ?thesis by (auto simp: quiet_def list_all_iff)
  next
    case f
    from f(3) assms(3,4) have "(a, Failed c) \<notin> set pre" by (auto simp: quiet_def list_all_iff)
    with f(2) assms(3) have "a' = a" "c' = c" by auto
    with f show ?thesis by blast
  qed
qed

theorem build_failure_propagates_witness:
  "fst (createDiff (const_comparator (CompareOk (Some added_dir_diffSet))) [''A''] [''B''] [''D'']
          added_dir_world) = Inl (IOError (OpSymlink ''../f'' [''D'', ''d'', ''l'']) EEXIST) \<and>
   (\<exists>pre. trace (snd (createDiff (const_comparator (CompareOk (Some added_dir_diffSet)))
              [''A''] [''B''] [''D''] added_dir_world))
            = pre @ [(OpSymlink ''../f'' [''D'', ''d'', ''l''], Failed EEXIST)] \<and> quiet pre)"
proof -
  let ?run = "createDiff (const_comparator (CompareOk (Some added_dir_diffSet)))
                [''A''] [''B''] [''D''] added_dir_world"
  have h1: "trace added_dir_world = []" by (simp add: added_dir_world_def)
  have h2: "?run = (fst ?run, snd ?run)" by simp
  have h3: "(OpSymlink ''../f'' [''D'', ''d'', ''l''], Failed EEXIST) \<in> set (trace (snd ?run))"
    by code_simp
  have h4: "\<not> lstat_op (OpSymlink ''../f'' [''D'', ''d'', ''l''])" by simp
  from build_failure_propagates[OF h1 h2 h3 h4] show ?thesis .
qed

text \<open>
  C9. Every removal listed in the manifest is complete before anything of the diff
  folder is replayed; a path that is removed and added again is removed before it is
  added. When the listed path is a dangling link of the target and the diff folder has a
  regular file there, the removal phase asks \<open>pathExists\<close>, which follows the link, and
  makes no \<open>remove\<close> call: the replay then copies the file through the link that is still
  there, which stays, and the bytes land at the path the link names.
\<close>

theorem listed_dangling_link_is_never_removed:
  "fst (restoreDiff 2 [''T''] [''D''] (default_metadataPath [''D'']) listed_dangling_world)
     = Inr () \<and>
   (OpPathExists [''T'', ''p''], Done) \<in>
     set (trace (snd (restoreDiff 2 [''T''] [''D''] (default_metadataPath [''D''])
                        listed_dangling_world))) \<and>
   (OpRemove [''T'', ''p''], Done) \<notin>
     set (trace (snd (restoreDiff 2 [''T''] [''D''] (default_metadataPath [''D''])
                        listed_dangling_world))) \<and>
   (OpCopyFile [''D'', ''p''] [''T'', ''p''], Done) \<in>
     set (trace (snd (restoreDiff 2 [''T''] [''D''] (default_metadataPath [''D''])
                        listed_dangling_world))) \<and>
   fs_lstat (files (snd (restoreDiff 2 [''T''] [''D''] (default_metadataPath [''D''])
                           listed_dangling_world))) [''T'', ''p''] = Inr (Link ''gone'') \<and>
   fs_lstat (files (snd (restoreDiff 2 [''T''] [''D''] (default_metadataPath [''D''])
                           listed_dangling_world))) [''T'', ''gone''] = Inr (File (Bytes ''new''))"
  by code_simp




end
